theory Spec2Isabelle
  imports Complex_Main "HOL-Library.Word" "HOL-Library.Sublist" "HOL-Library.Multiset"
begin

section \<open>JavaScript strings\<close>

text \<open>
  A JavaScript string is a sequence of UTF-16 code units. \<open>js\<close> embeds an ASCII literal
  of the source; \<open>String_of_nat\<close> is the decimal rendering a template literal
  \<^verbatim>\<open>${n}\<close> gives a non-negative integer; \<open>join\<close> is \<^verbatim>\<open>Array.prototype.join\<close>.
\<close>

type_synonym jschar = "16 word"
type_synonym jsstring = "jschar list"

definition js :: "string \<Rightarrow> jsstring" where
  "js s = map (\<lambda>c. of_nat (of_char c)) s"

fun String_of_nat :: "nat \<Rightarrow> jsstring" where
  "String_of_nat n =
     (if n < 10 then [of_nat (48 + n)]
      else String_of_nat (n div 10) @ [of_nat (48 + n mod 10)])"

declare String_of_nat.simps [simp del]

fun join :: "jsstring \<Rightarrow> jsstring list \<Rightarrow> jsstring" where
  "join sep [] = []"
| "join sep [x] = x"
| "join sep (x # y # ys) = x @ sep @ join sep (y # ys)"

section \<open>DocumentUpload: the tracked file list\<close>

text \<open>
  \<open>File\<close> is the browser's File object as the component reads it; \<open>upload_item\<close> is
  the tracking object \<^verbatim>\<open>fileObj\<close> built in \<^verbatim>\<open>handleFileSelect\<close>. The fields
  \<^verbatim>\<open>size\<close>, \<^verbatim>\<open>type\<close>, \<^verbatim>\<open>id\<close> and \<^verbatim>\<open>file\<close> carry the suffix \<open>_f\<close>.
\<close>

record File =
  file_name :: jsstring
  file_size :: nat
  file_type :: jsstring
  file_lastModified :: int

datatype status = Ready | GettingUrl | Uploading | Processing | Completed | Failed

record upload_item =
  name :: jsstring
  size_f :: nat
  type_f :: jsstring
  lastModified :: int
  id_f :: int
  status :: status
  progress :: real
  error :: "jsstring option"
  file_f :: File

record upload_state =
  files :: "upload_item list"
  uploading :: bool
  globalStatus :: jsstring

definition MAX_FILES :: nat where
  "MAX_FILES = 100"

definition MAX_FILE_SIZE :: nat where
  "MAX_FILE_SIZE = 50 * 1024 * 1024"

definition validateFile :: "File \<Rightarrow> jsstring option" where
  "validateFile f =
     (if file_type f \<noteq> js ''application/pdf'' then Some (js ''Only PDF files are allowed'')
      else if file_size f > MAX_FILE_SIZE then Some (js ''File size must be less than 50MB'')
      else None)"

definition isDuplicate :: "upload_item list \<Rightarrow> File \<Rightarrow> bool" where
  "isDuplicate fs f =
     list_ex (\<lambda>existingFile. name existingFile = file_name f \<and> size_f existingFile = file_size f) fs"

definition fileObj :: "File \<Rightarrow> int \<Rightarrow> upload_item" where
  "fileObj f i =
     \<lparr>name = file_name f, size_f = file_size f, type_f = file_type f,
      lastModified = file_lastModified f, id_f = i, status = Ready, progress = 0,
      error = None, file_f = f\<rparr>"

text \<open>
  The \<^verbatim>\<open>forEach\<close> of \<^verbatim>\<open>handleFileSelect\<close>, with its two accumulators. \<open>fs\<close> is the
  tracked list the callback closed over, \<open>now index\<close> the reading of \<^verbatim>\<open>Date.now()\<close>
  taken while the candidate at \<open>index\<close> is handled.
\<close>

fun forEach_select ::
  "upload_item list \<Rightarrow> (nat \<Rightarrow> int) \<Rightarrow> nat \<Rightarrow> File list \<Rightarrow> upload_item list \<Rightarrow> jsstring list
     \<Rightarrow> upload_item list \<times> jsstring list" where
  "forEach_select fs now index [] validFiles errors = (validFiles, errors)"
| "forEach_select fs now index (f # rest) validFiles errors =
     (case validateFile f of
        Some err \<Rightarrow>
          forEach_select fs now (Suc index) rest validFiles (errors @ [file_name f @ js '': '' @ err])
      | None \<Rightarrow>
          if \<not> isDuplicate fs f then
            forEach_select fs now (Suc index) rest
              (validFiles @ [fileObj f (now index + int index)]) errors
          else
            forEach_select fs now (Suc index) rest validFiles
              (errors @ [file_name f @ js '': Duplicate file'']))"

definition handleFileSelect :: "(nat \<Rightarrow> int) \<Rightarrow> File list \<Rightarrow> upload_state \<Rightarrow> upload_state" where
  "handleFileSelect now selectedFiles st =
     (if length (files st) + length selectedFiles > MAX_FILES then
        st\<lparr>globalStatus :=
             js ''Cannot upload more than '' @ String_of_nat MAX_FILES
             @ js '' files. Currently have '' @ String_of_nat (length (files st))
             @ js '' files.''\<rparr>
      else
        (case forEach_select (files st) now 0 selectedFiles [] [] of
           (validFiles, errors) \<Rightarrow>
             let st1 = st\<lparr>globalStatus :=
                            (if length errors > 0
                             then js ''Some files were rejected: '' @ join (js '', '') errors
                             else [])\<rparr>
             in if length validFiles > 0 then st1\<lparr>files := files st1 @ validFiles\<rparr> else st1))"

definition updateFileStatus ::
  "int \<Rightarrow> status \<Rightarrow> real \<Rightarrow> jsstring option \<Rightarrow> upload_item list \<Rightarrow> upload_item list" where
  "updateFileStatus fileId st pr er prev =
     map (\<lambda>f. if id_f f = fileId then f\<lparr>status := st, progress := pr, error := er\<rparr> else f) prev"

text \<open>
  The retryable subset that \<^verbatim>\<open>handleUploadAll\<close> takes as its batch, and the state
  the component starts in.
\<close>

definition filesToUpload :: "upload_item list \<Rightarrow> upload_item list" where
  "filesToUpload fs = filter (\<lambda>f. status f = Ready \<or> status f = Failed) fs"

definition empty_state :: upload_state where
  "empty_state = \<lparr>files = [], uploading = False, globalStatus = []\<rparr>"

text \<open>Example data: a PDF of ten bytes, and a clock that does not tick during one event.\<close>

definition sample_pdf :: "string \<Rightarrow> File" where
  "sample_pdf n =
     \<lparr>file_name = js n, file_size = 10, file_type = js ''application/pdf'',
      file_lastModified = 0\<rparr>"

definition frozen_clock :: "int \<Rightarrow> nat \<Rightarrow> int" where
  "frozen_clock t index = t"


section \<open>ChatInterface: the streaming renderer\<close>

text \<open>
  The state of one \<^verbatim>\<open>MessageContent\<close> instance: the displayed text, the latch
  \<^verbatim>\<open>streamingRef.current\<close>, and the number of calls of \<^verbatim>\<open>onStreamComplete\<close> so far.
\<close>

record message_content =
  displayedContent :: jsstring
  streamingRef :: bool
  completions :: nat

definition mounted :: message_content where
  "mounted = \<lparr>displayedContent = [], streamingRef = False, completions = 0\<rparr>"

text \<open>
  \<open>rnd\<close> is the sequence of results of \<^verbatim>\<open>Math.random()\<close>, \<open>k\<close> the number of results
  consumed. The chunk size takes one or two of them, the delay of the next timer a
  further one. The delay itself, between 20 and 70 milliseconds, has no part in what is
  displayed.
\<close>

definition chunkSize :: "(nat \<Rightarrow> real) \<Rightarrow> nat \<Rightarrow> nat \<times> nat" where
  "chunkSize rnd k =
     (if rnd k > 0.7 then (3, Suc k)
      else if rnd (Suc k) > 0.4 then (2, Suc (Suc k))
      else (1, Suc (Suc k)))"

function streamText ::
  "(nat \<Rightarrow> real) \<Rightarrow> jsstring \<Rightarrow> nat \<Rightarrow> nat \<Rightarrow> message_content \<Rightarrow> message_content" where
  "streamText rnd content index k mc =
     (if index < length content then
        (case chunkSize rnd k of
           (n, k') \<Rightarrow>
             let nextChunk = take n (drop index content)
             in streamText rnd content (index + n) (Suc k')
                  (mc\<lparr>displayedContent := displayedContent mc @ nextChunk\<rparr>))
      else mc\<lparr>streamingRef := False, completions := Suc (completions mc)\<rparr>)"
  by pat_completeness auto
termination
  by (relation "measure (\<lambda>(rnd, content, index, k, mc). length content - index)")
     (auto simp: chunkSize_def split: if_splits)

declare streamText.simps [simp del]

text \<open>
  The effect of \<^verbatim>\<open>MessageContent\<close>, run together with every timer it schedules.
  \<^verbatim>\<open>content\<close> is tested for truthiness: the empty string does not start a run.
\<close>

definition useEffect_stream ::
  "(nat \<Rightarrow> real) \<Rightarrow> jsstring \<Rightarrow> bool \<Rightarrow> message_content \<Rightarrow> message_content" where
  "useEffect_stream rnd content isStreaming mc =
     (if isStreaming \<and> content \<noteq> [] \<and> \<not> streamingRef mc then
        streamText rnd content 0 0 (mc\<lparr>streamingRef := True, displayedContent := []\<rparr>)
      else if \<not> isStreaming then mc\<lparr>displayedContent := content, streamingRef := False\<rparr>
      else mc)"

definition MessageContent :: "(nat \<Rightarrow> real) \<Rightarrow> jsstring \<Rightarrow> bool \<Rightarrow> message_content" where
  "MessageContent rnd content isStreaming = useEffect_stream rnd content isStreaming mounted"

text \<open>Example data: a generator whose every result is one half (chunks of two).\<close>

definition steady_random :: "nat \<Rightarrow> real" where
  "steady_random k = 1 / 2"

section \<open>ChatInterface: chat turns\<close>

datatype role = User | Assistant

record message =
  id_m :: jsstring
  role :: role
  content :: jsstring
  createdAt :: jsstring
  fullContent :: "jsstring option"

record chat =
  id_c :: jsstring
  title :: jsstring
  createdAt_c :: jsstring
  updatedAt :: jsstring

record chat_state =
  chats :: "chat list"
  activeChat :: "chat option"
  messages :: "message list"
  newMessage :: jsstring
  newChatTitle :: jsstring
  showNewChatForm :: bool
  sendingMessage :: bool
  streamingMessageId :: "jsstring option"
  error_c :: jsstring
  sidebarOpen :: bool

text \<open>
  What the environment supplies during one turn: the readings of \<^verbatim>\<open>Date.now()\<close> for
  the three ids, the renderings of \<^verbatim>\<open>new Date()\<close>, and whether the window is narrower
  than 768 pixels.
\<close>

record turn_env =
  now_user :: int
  now_assistant :: int
  now_chat :: int
  iso_user :: jsstring
  iso_assistant :: jsstring
  iso_created :: jsstring
  iso_updated :: jsstring
  locale_now :: jsstring
  narrow :: bool

text \<open>
  What the API call does: it rejects with an error of some message, or resolves with a
  response, which may be null, unsuccessful or without data.
\<close>

record 'd response =
  success :: bool
  data :: "'d option"

datatype 'd api_outcome = Rejected jsstring | Resolved "'d response option"

record create_data =
  chatId :: jsstring
  query :: jsstring
  answer :: jsstring
  messageId :: jsstring

record send_data =
  answer_s :: jsstring
  messageId_s :: jsstring

definition String_of_int :: "int \<Rightarrow> jsstring" where
  "String_of_int i = (if i < 0 then js ''-'' @ String_of_nat (nat (- i)) else String_of_nat (nat i))"

text \<open>
  \<^verbatim>\<open>String.prototype.trim\<close> strips the white space and line terminators of ECMAScript
  from both ends.
\<close>

definition isWhiteSpace :: "jschar \<Rightarrow> bool" where
  "isWhiteSpace c =
     (c \<in> set [0x0009, 0x000A, 0x000B, 0x000C, 0x000D, 0x0020, 0x00A0, 0x1680, 0x2000, 0x2001,
               0x2002, 0x2003, 0x2004, 0x2005, 0x2006, 0x2007, 0x2008, 0x2009, 0x200A, 0x2028,
               0x2029, 0x202F, 0x205F, 0x3000, 0xFEFF])"

definition trim :: "jsstring \<Rightarrow> jsstring" where
  "trim s = rev (dropWhile isWhiteSpace (rev (dropWhile isWhiteSpace s)))"

text \<open>
  The value the code tests after the call, \<^verbatim>\<open>response && response.success && response.data\<close>:
  the data of a usable response, or the message of the error the \<^verbatim>\<open>catch\<close> receives.
\<close>

definition usable :: "'d api_outcome \<Rightarrow> jsstring + 'd" where
  "usable outcome =
     (case outcome of
        Rejected msg \<Rightarrow> Inl msg
      | Resolved None \<Rightarrow> Inl (js ''Invalid response format'')
      | Resolved (Some r) \<Rightarrow>
          (if success r then
             (case data r of Some d \<Rightarrow> Inr d | None \<Rightarrow> Inl (js ''Invalid response format''))
           else Inl (js ''Invalid response format'')))"

text \<open>
  The API call is awaited. While it is pending the component goes on handling events:
  the chat rows, the button for a new chat and the delete buttons are not disabled by
  \<^verbatim>\<open>sendingMessage\<close>. \<open>LoadChatMessages\<close> is \<^verbatim>\<open>handleChatSelect\<close> with the resolved
  \<^verbatim>\<open>getChat\<close> (the chat data and its messages), \<open>StartNewChat\<close> and \<open>DeleteChat\<close> are
  \<^verbatim>\<open>startNewChat\<close> and the confirmed, resolved \<^verbatim>\<open>deleteChat\<close>.
\<close>

datatype handler = LoadChatMessages chat "message list" | StartNewChat | DeleteChat jsstring

fun handle :: "bool \<Rightarrow> handler \<Rightarrow> chat_state \<Rightarrow> chat_state" where
  "handle narrow_window (LoadChatMessages chatData msgs) st =
     st\<lparr>error_c := [], messages := msgs, activeChat := Some chatData,
        sidebarOpen := (if narrow_window then False else sidebarOpen st)\<rparr>"
| "handle narrow_window StartNewChat st =
     st\<lparr>activeChat := None, messages := [], newMessage := [], newChatTitle := [],
        error_c := [], showNewChatForm := True,
        sidebarOpen := (if narrow_window then False else sidebarOpen st)\<rparr>"
| "handle narrow_window (DeleteChat deleted) st =
     (let st1 = st\<lparr>chats := filter (\<lambda>c. id_c c \<noteq> deleted) (chats st)\<rparr>
      in case activeChat st of
           Some c \<Rightarrow> if id_c c = deleted then st1\<lparr>activeChat := None, messages := []\<rparr> else st1
         | None \<Rightarrow> st1)"

fun handle_all :: "bool \<Rightarrow> handler list \<Rightarrow> chat_state \<Rightarrow> chat_state" where
  "handle_all narrow_window [] st = st"
| "handle_all narrow_window (h # hs) st = handle_all narrow_window hs (handle narrow_window h st)"

text \<open>
  \<^verbatim>\<open>createNewChat\<close> and \<^verbatim>\<open>sendMessage\<close>: the part before the \<^verbatim>\<open>await\<close>, the events
  \<open>during\<close> the request, and the part after it, whose updates of \<^verbatim>\<open>chats\<close> and
  \<^verbatim>\<open>messages\<close> are functions of the state they find.
\<close>

definition createNewChat ::
  "turn_env \<Rightarrow> create_data api_outcome \<Rightarrow> handler list \<Rightarrow> chat_state \<Rightarrow> chat_state" where
  "createNewChat env outcome during st =
     (if trim (newMessage st) = [] then st
      else
        let userQuery = trim (newMessage st);
            chatTitle = (if trim (newChatTitle st) \<noteq> [] then trim (newChatTitle st)
                         else js ''Chat '' @ locale_now env);
            userMessage = \<lparr>id_m = js ''user-'' @ String_of_int (now_user env), role = User,
                           content = userQuery, createdAt = iso_user env, fullContent = None\<rparr>;
            assistantMessageId = js ''assistant-'' @ String_of_int (now_assistant env);
            assistantMessage = \<lparr>id_m = assistantMessageId, role = Assistant, content = [],
                                createdAt = iso_assistant env, fullContent = Some []\<rparr>;
            tempChatId = js ''temp-'' @ String_of_int (now_chat env);
            newChatObject = \<lparr>id_c = tempChatId, title = chatTitle,
                             createdAt_c = iso_created env, updatedAt = iso_updated env\<rparr>;
            st1 = st\<lparr>sendingMessage := True, error_c := [],
                     chats := newChatObject # chats st,
                     activeChat := Some newChatObject,
                     messages := [userMessage, assistantMessage],
                     newMessage := [], newChatTitle := [], showNewChatForm := False,
                     streamingMessageId := Some assistantMessageId,
                     sidebarOpen := (if narrow env then False else sidebarOpen st)\<rparr>;
            prev = handle_all (narrow env) during st1;
            st2 = (case usable outcome of
                     Inr d \<Rightarrow>
                       let updatedChat = newChatObject\<lparr>id_c := chatId d\<rparr>
                       in prev\<lparr>chats := map (\<lambda>c. if id_c c = tempChatId then updatedChat else c)
                                          (chats prev),
                               activeChat := Some updatedChat,
                               messages := map (\<lambda>msg. if id_m msg = assistantMessageId
                                                        then msg\<lparr>id_m := messageId d,
                                                                 fullContent := Some (answer d),
                                                                 content := []\<rparr>
                                                        else msg) (messages prev)\<rparr>
                   | Inl msg \<Rightarrow>
                       prev\<lparr>error_c := js ''Failed to create chat: '' @ msg,
                            messages := take (length (messages prev) - 1) (messages prev),
                            streamingMessageId := None\<rparr>)
        in st2\<lparr>sendingMessage := False\<rparr>)"

definition sendMessage ::
  "turn_env \<Rightarrow> send_data api_outcome \<Rightarrow> handler list \<Rightarrow> chat_state \<Rightarrow> chat_state" where
  "sendMessage env outcome during st =
     (if trim (newMessage st) = [] \<or> activeChat st = None then st
      else
        let userQuery = trim (newMessage st);
            userMessage = \<lparr>id_m = js ''user-'' @ String_of_int (now_user env), role = User,
                           content = userQuery, createdAt = iso_user env, fullContent = None\<rparr>;
            assistantMessageId = js ''assistant-'' @ String_of_int (now_assistant env);
            assistantMessage = \<lparr>id_m = assistantMessageId, role = Assistant, content = [],
                                createdAt = iso_assistant env, fullContent = Some []\<rparr>;
            st1 = st\<lparr>sendingMessage := True, error_c := [],
                     messages := messages st @ [userMessage, assistantMessage],
                     newMessage := [],
                     streamingMessageId := Some assistantMessageId\<rparr>;
            prev = handle_all (narrow env) during st1;
            st2 = (case usable outcome of
                     Inr d \<Rightarrow>
                       prev\<lparr>messages := map (\<lambda>msg. if id_m msg = assistantMessageId
                                                     then msg\<lparr>id_m := messageId_s d,
                                                              fullContent := Some (answer_s d),
                                                              content := []\<rparr>
                                                     else msg) (messages prev)\<rparr>
                   | Inl msg \<Rightarrow>
                       prev\<lparr>error_c := js ''Failed to send message: '' @ msg,
                            messages := take (length (messages prev) - 2) (messages prev),
                            newMessage := userQuery,
                            streamingMessageId := None\<rparr>)
        in st2\<lparr>sendingMessage := False\<rparr>)"

text \<open>
  Example data: a chat view with one open chat and a draft, a fixed environment, and a
  second chat with its two messages.
\<close>

definition sample_env :: turn_env where
  "sample_env =
     \<lparr>now_user = 1000, now_assistant = 1000, now_chat = 1000,
      iso_user = js ''2024-01-01T00:00:00.000Z'', iso_assistant = js ''2024-01-01T00:00:00.000Z'',
      iso_created = js ''2024-01-01T00:00:00.000Z'', iso_updated = js ''2024-01-01T00:00:00.000Z'',
      locale_now = js ''1/1/2024, 12:00:00 AM'', narrow = False\<rparr>"

definition sample_view :: "string \<Rightarrow> chat_state" where
  "sample_view draft =
     \<lparr>chats = [\<lparr>id_c = js ''c1'', title = js ''First'', createdAt_c = [], updatedAt = []\<rparr>],
      activeChat = Some \<lparr>id_c = js ''c1'', title = js ''First'', createdAt_c = [], updatedAt = []\<rparr>,
      messages = [], newMessage = js draft, newChatTitle = [], showNewChatForm = True,
      sendingMessage = False, streamingMessageId = None, error_c = [], sidebarOpen = False\<rparr>"

definition other_chat :: chat where
  "other_chat = \<lparr>id_c = js ''c2'', title = js ''Second'', createdAt_c = [], updatedAt = []\<rparr>"

definition other_messages :: "message list" where
  "other_messages =
     [\<lparr>id_m = js ''m1'', role = User, content = js ''question'', createdAt = [],
       fullContent = None\<rparr>,
      \<lparr>id_m = js ''m2'', role = Assistant, content = js ''reply'', createdAt = [],
       fullContent = None\<rparr>]"


section \<open>DocumentUpload: the upload protocol of one file\<close>

text \<open>
  What the collaborators do during the protocol of one file. A promise either rejects
  with an error of some message or resolves with a value. The body of the response to
  \<^verbatim>\<open>getUploadUrl\<close> may be null, in which case reading its \<^verbatim>\<open>data\<close> raises a
  TypeError with the message \<open>type_error\<close> of the engine; \<^verbatim>\<open>data\<close>, \<^verbatim>\<open>uploadUrl\<close>
  and \<^verbatim>\<open>key\<close> may be missing or empty. The transfer delivers progress events and then
  ends in a load with an HTTP status, a network error or an abort; \<open>progress_ticks\<close> are
  the percentages \<^verbatim>\<open>(e.loaded / e.total) * 100\<close> of the events with a computable length.
\<close>

datatype 'a settlement = Rejects jsstring | Resolves 'a

record url_data =
  uploadUrl :: "jsstring option"
  key_u :: "jsstring option"

record url_response =
  data_u :: "url_data option"

datatype xhr_end = Load nat | NetworkError | Abort

record file_env =
  url_call :: "url_response option settlement"
  type_error :: jsstring
  progress_ticks :: "real list"
  xhr_end :: xhr_end
  process_call :: "unit settlement"

definition truthy :: "jsstring option \<Rightarrow> bool" where
  "truthy v = (case v of None \<Rightarrow> False | Some s \<Rightarrow> s \<noteq> [])"

text \<open>
  What one run of the protocol does, as the events of protocol number \<open>n\<close>: its start,
  the status updates it makes, the callbacks the event loop delivers to it (the
  continuation of an \<^verbatim>\<open>await\<close>, a progress listener), and the settling of its promise.
  Between two callbacks the run is not interrupted.
\<close>

datatype event =
  Start nat
  | Update int status real "jsstring option"
  | Callback nat
  | Settle nat

record upload_result =
  success_r :: bool
  file_r :: jsstring
  error_r :: "jsstring option"

text \<open>
  The \<^verbatim>\<open>try\<close> block of \<^verbatim>\<open>uploadSingleFile\<close>: the events up to its end or up to the
  throw, and the message of the error thrown, if any.
\<close>

definition try_block :: "nat \<Rightarrow> file_env \<Rightarrow> upload_item \<Rightarrow> event list \<times> jsstring option" where
  "try_block n env file =
     (if name file = [] then ([], Some (js ''Invalid file object - missing name''))
      else if type_f file = [] then ([], Some (js ''Invalid file object - missing type''))
      else
        let e1 = [Update (id_f file) GettingUrl 0 None, Callback n] in
        (case url_call env of
           Rejects msg \<Rightarrow> (e1, Some msg)
         | Resolves None \<Rightarrow> (e1, Some (type_error env))
         | Resolves (Some uploadResponse) \<Rightarrow>
             (case data_u uploadResponse of
                None \<Rightarrow> (e1, Some (js ''Invalid upload URL response from server''))
              | Some d \<Rightarrow>
                  if \<not> truthy (uploadUrl d) \<or> \<not> truthy (key_u d)
                  then (e1, Some (js ''Invalid upload URL response from server''))
                  else
                    let e2 = e1 @ [Update (id_f file) Uploading 0 None]
                               @ concat (map (\<lambda>p. [Callback n, Update (id_f file) Uploading p None])
                                           (progress_ticks env))
                               @ [Callback n]
                    in
                    (case xhr_end env of
                       Load st \<Rightarrow>
                         if st = 200 then
                           let e3 = e2 @ [Update (id_f file) Processing 100 None, Callback n] in
                           (case process_call env of
                              Rejects msg \<Rightarrow> (e3, Some msg)
                            | Resolves processResponse \<Rightarrow>
                                (e3 @ [Update (id_f file) Completed 100 None], None))
                         else (e2, Some (js ''Upload failed with status: '' @ String_of_nat st))
                     | NetworkError \<Rightarrow> (e2, Some (js ''Network error during upload''))
                     | Abort \<Rightarrow> (e2, Some (js ''Upload was aborted''))))))"

text \<open>
  \<^verbatim>\<open>uploadSingleFile\<close>: the \<^verbatim>\<open>try\<close> block, then either its return or the \<^verbatim>\<open>catch\<close>
  block. The promise always resolves, with the second component.
\<close>

definition uploadSingleFile :: "nat \<Rightarrow> file_env \<Rightarrow> upload_item \<Rightarrow> event list \<times> upload_result" where
  "uploadSingleFile n env file =
     (case try_block n env file of
        (evs, None) \<Rightarrow>
          (Start n # evs @ [Settle n],
           \<lparr>success_r = True, file_r = name file, error_r = None\<rparr>)
      | (evs, Some msg) \<Rightarrow>
          (Start n # evs @ [Update (id_f file) Failed 0 (Some msg), Settle n],
           \<lparr>success_r = False,
            file_r = (if name file \<noteq> [] then name file else js ''unknown file''),
            error_r = Some msg\<rparr>))"

section \<open>DocumentUpload: the batch orchestrator\<close>

text \<open>
  One turn of the event loop for a protocol: its next event and what follows up to its
  next callback; and what remains of the protocol.
\<close>

fun is_Callback :: "event \<Rightarrow> bool" where
  "is_Callback (Callback n) = True"
| "is_Callback e = False"

fun turn :: "event list \<Rightarrow> event list \<times> event list" where
  "turn [] = ([], [])"
| "turn (e # es) =
     (e # takeWhile (\<lambda>x. \<not> is_Callback x) es, dropWhile (\<lambda>x. \<not> is_Callback x) es)"

text \<open>
  The event loop while \<^verbatim>\<open>Promise.all\<close> is awaited. \<open>pending\<close> holds what remains of each
  protocol of the group. The schedule stands for the order in which the network
  delivers: each choice picks one of the protocols that still have something to do, and
  that protocol runs one turn. When the schedule is used up the rest runs protocol after
  protocol.
\<close>

fun event_loop :: "nat list \<Rightarrow> event list list \<Rightarrow> event list" where
  "event_loop [] pending = concat pending"
| "event_loop (c # cs) pending =
     (let live = filter (\<lambda>q. q \<noteq> []) pending in
      if live = [] then []
      else
        let k = c mod length live in
        (case turn (live ! k) of
           (now, later) \<Rightarrow> now @ event_loop cs (live[k := later])))"

text \<open>
  One group: \<^verbatim>\<open>batch.map(file => uploadSingleFile(file))\<close> runs each protocol up to its
  first \<^verbatim>\<open>await\<close>, one after the other; \<^verbatim>\<open>await Promise.all(batchPromises)\<close> then
  leaves the rest to the event loop.
\<close>

definition run_group :: "nat list \<Rightarrow> event list list \<Rightarrow> event list" where
  "run_group schedule protocols =
     concat (map (\<lambda>p. fst (turn p)) protocols)
     @ event_loop schedule (map (\<lambda>p. snd (turn p)) protocols)"

definition batchSize :: nat where
  "batchSize = 3"

text \<open>
  The \<^verbatim>\<open>for\<close> loop of \<^verbatim>\<open>handleUploadAll\<close>, from index \<open>i\<close> on: the events of the
  groups, one group after the other, and the results pushed. Protocol number \<open>j\<close> is
  the one of the file at index \<open>j\<close> of \<^verbatim>\<open>filesToUpload\<close>; \<open>env j\<close> is what the
  collaborators do for it, \<open>sched i\<close> the schedule of the group that starts at \<open>i\<close>.
\<close>

function upload_loop ::
  "(nat \<Rightarrow> nat list) \<Rightarrow> (nat \<Rightarrow> file_env) \<Rightarrow> upload_item list \<Rightarrow> nat
     \<Rightarrow> event list \<times> upload_result list" where
  "upload_loop sched env ftu i =
     (if i < length ftu then
        let batch = take batchSize (drop i ftu);
            batchPromises = map (\<lambda>(j, file). uploadSingleFile j (env j) file) (enumerate i batch)
        in (case upload_loop sched env ftu (i + batchSize) of
              (events, results) \<Rightarrow>
                (run_group (sched i) (map fst batchPromises) @ events,
                 map snd batchPromises @ results))
      else ([], []))"
  by pat_completeness auto
termination
  by (relation "measure (\<lambda>(sched, env, ftu, i). length ftu - i)")
     (auto simp: batchSize_def)

declare upload_loop.simps [simp del]

text \<open>The status updates of a trace, applied to the tracked list in their order.\<close>

fun apply_event :: "event \<Rightarrow> upload_item list \<Rightarrow> upload_item list" where
  "apply_event (Update fileId st pr er) prev = updateFileStatus fileId st pr er prev"
| "apply_event e prev = prev"

fun replay :: "event list \<Rightarrow> upload_item list \<Rightarrow> upload_item list" where
  "replay [] prev = prev"
| "replay (e # es) prev = replay es (apply_event e prev)"

record upload_run =
  state_after :: upload_state
  trace :: "event list"
  results :: "upload_result list"
  uploadCompleteCalls :: nat

definition handleUploadAll ::
  "(nat \<Rightarrow> nat list) \<Rightarrow> (nat \<Rightarrow> file_env) \<Rightarrow> upload_state \<Rightarrow> upload_run" where
  "handleUploadAll sched env st =
     (if length (files st) = 0 then
        \<lparr>state_after = st, trace = [], results = [], uploadCompleteCalls = 0\<rparr>
      else if length (filesToUpload (files st)) = 0 then
        \<lparr>state_after = st, trace = [], results = [], uploadCompleteCalls = 0\<rparr>
      else
        (case upload_loop sched env (filesToUpload (files st)) 0 of
           (events, rs) \<Rightarrow>
             let successful = filter (\<lambda>r. success_r r) rs;
                 failed = filter (\<lambda>r. \<not> success_r r) rs
             in \<lparr>state_after =
                   st\<lparr>files := replay events (files st),
                      uploading := False,
                      globalStatus :=
                        (if length successful > 0 \<and> length failed = 0 then
                           js ''Successfully uploaded '' @ String_of_nat (length successful)
                           @ js '' files!''
                         else if length successful > 0 \<and> length failed > 0 then
                           js ''Uploaded '' @ String_of_nat (length successful) @ js '' files. ''
                           @ String_of_nat (length failed) @ js '' failed.''
                         else js ''All uploads failed.'')\<rparr>,
                 trace = events, results = rs, uploadCompleteCalls = 1\<rparr>))"

text \<open>
  The protocols in flight after a stretch of events: those started and not yet settled.
  \<open>last_status i\<close> is the status the last update of the item id \<open>i\<close> sets, if there is
  one; a stretch of events \<open>ends_terminal\<close> for an id when that status, if any, is
  \<^verbatim>\<open>completed\<close> or \<^verbatim>\<open>failed\<close>. \<open>protocols_of env i batch\<close> are the runs of the
  protocols of one group.
\<close>

fun started :: "event list \<Rightarrow> nat list" where
  "started [] = []"
| "started (Start n # es) = n # started es"
| "started (e # es) = started es"

fun settled :: "event list \<Rightarrow> nat list" where
  "settled [] = []"
| "settled (Settle n # es) = n # settled es"
| "settled (e # es) = settled es"

definition in_flight :: "event list \<Rightarrow> nat list" where
  "in_flight evs = filter (\<lambda>n. n \<notin> set (settled evs)) (started evs)"

fun last_status :: "int \<Rightarrow> event list \<Rightarrow> status option" where
  "last_status i [] = None"
| "last_status i (e # es) =
     (case last_status i es of
        Some s \<Rightarrow> Some s
      | None \<Rightarrow> (case e of Update j s pr er \<Rightarrow> if j = i then Some s else None | _ \<Rightarrow> None))"

definition ends_terminal :: "int \<Rightarrow> event list \<Rightarrow> bool" where
  "ends_terminal i q =
     (case last_status i q of None \<Rightarrow> True | Some s \<Rightarrow> s = Completed \<or> s = Failed)"

definition protocols_of :: "(nat \<Rightarrow> file_env) \<Rightarrow> nat \<Rightarrow> upload_item list \<Rightarrow> event list list" where
  "protocols_of env i batch =
     map (\<lambda>(j, f). fst (uploadSingleFile j (env j) f)) (enumerate i batch)"

text \<open>Example data: collaborators that succeed, and collaborators whose transfer fails.\<close>

definition good_env :: file_env where
  "good_env =
     \<lparr>url_call = Resolves (Some \<lparr>data_u = Some \<lparr>uploadUrl = Some (js ''https://s3/put''),
                                               key_u = Some (js ''k'')\<rparr>\<rparr>),
      type_error = js ''Cannot read properties of null'',
      progress_ticks = [50], xhr_end = Load 200, process_call = Resolves ()\<rparr>"

definition bad_env :: file_env where
  "bad_env = good_env\<lparr>progress_ticks := [], xhr_end := Load 403\<rparr>"

definition sample_envs :: "nat \<Rightarrow> file_env" where
  "sample_envs j = (if j = 1 then bad_env else good_env)"

definition sample_sched :: "nat \<Rightarrow> nat list" where
  "sample_sched i = [2, 0, 1, 1, 0]"

definition four_ready :: upload_state where
  "four_ready =
     \<lparr>files = [fileObj (sample_pdf ''a.pdf'') 1, fileObj (sample_pdf ''b.pdf'') 2,
               fileObj (sample_pdf ''c.pdf'') 3, fileObj (sample_pdf ''d.pdf'') 4],
      uploading = False, globalStatus = []\<rparr>"


section \<open>ChatInterface: the markdown transform\<close>

text \<open>
  \<^verbatim>\<open>parseMarkdown\<close> is a chain of \<^verbatim>\<open>String.prototype.replace\<close> calls with regular
  expressions. Each expression is modelled by what it matches. In a multiline expression
  \<^verbatim>\<open>^\<close> and \<^verbatim>\<open>$\<close> stand at the ends of lines, and without the flag \<^verbatim>\<open>s\<close> the dot
  matches every code unit but the four line terminators.
\<close>

definition isLineTerminator :: "jschar \<Rightarrow> bool" where
  "isLineTerminator c = (c \<in> set [0x000A, 0x000D, 0x2028, 0x2029])"

text \<open>
  A global multiline replace whose expression is \<^verbatim>\<open>^\<close>, something, \<^verbatim>\<open>(.*$)\<close>: a match
  is a whole line, so the replace maps a function over the lines. \<open>line\<close> holds the code
  units of the current line read so far.
\<close>

fun map_lines :: "(jsstring \<Rightarrow> jsstring) \<Rightarrow> jsstring \<Rightarrow> jsstring \<Rightarrow> jsstring" where
  "map_lines f line [] = f line"
| "map_lines f line (c # cs) =
     (if isLineTerminator c then f line @ c # map_lines f [] cs
      else map_lines f (line @ [c]) cs)"

text \<open>
  \<^verbatim>\<open>/^### (.*$)/gim\<close> and its like: a line that begins with the marker is replaced by
  the rest of the line between two tags.
\<close>

definition marked_line :: "jsstring \<Rightarrow> jsstring \<Rightarrow> jsstring \<Rightarrow> jsstring \<Rightarrow> jsstring" where
  "marked_line marker opening closing line =
     (if prefix marker line then opening @ drop (length marker) line @ closing else line)"

text \<open>
  \<^verbatim>\<open>/^\d+\. (.*$)/gim\<close>: a line that begins with one or more decimal digits, a full
  stop and a blank.
\<close>

definition isDigit :: "jschar \<Rightarrow> bool" where
  "isDigit c = (0x0030 \<le> c \<and> c \<le> 0x0039)"

definition numbered_line :: "jsstring \<Rightarrow> jsstring \<Rightarrow> jsstring \<Rightarrow> jsstring" where
  "numbered_line opening closing line =
     (let digits = takeWhile isDigit line; behind = dropWhile isDigit line
      in if digits \<noteq> [] \<and> prefix (js ''. '') behind
         then opening @ drop 2 behind @ closing else line)"

text \<open>
  A global replace whose expression can be tried at a position without looking to the
  left of it. \<open>m s\<close> is the match at the beginning of \<open>s\<close>, if there is one: what
  replaces it, and what follows it. After a match the search goes on behind it (after
  an empty match, one code unit further).
\<close>

function replace_g :: "(jsstring \<Rightarrow> (jsstring \<times> jsstring) option) \<Rightarrow> jsstring \<Rightarrow> jsstring" where
  "replace_g m [] = (case m [] of Some (r, rest) \<Rightarrow> r | None \<Rightarrow> [])"
| "replace_g m (c # cs) =
     (case m (c # cs) of
        Some (r, rest) \<Rightarrow>
          if length rest < length (c # cs) then r @ replace_g m rest
          else r @ c # replace_g m cs
      | None \<Rightarrow> c # replace_g m cs)"
  by pat_completeness auto
termination
  by (relation "measure (\<lambda>(m, s). length s)") auto

text \<open>The same without the flag \<^verbatim>\<open>g\<close>: only the leftmost match is replaced.\<close>

fun replace_first :: "(jsstring \<Rightarrow> (jsstring \<times> jsstring) option) \<Rightarrow> jsstring \<Rightarrow> jsstring" where
  "replace_first m [] = (case m [] of Some (r, rest) \<Rightarrow> r @ rest | None \<Rightarrow> [])"
| "replace_first m (c # cs) =
     (case m (c # cs) of Some (r, rest) \<Rightarrow> r @ rest | None \<Rightarrow> c # replace_first m cs)"

text \<open>
  A lazy group followed by a literal, as in \<^verbatim>\<open>(.*?)\*\*\<close>: the shortest stretch of
  admissible code units after which the literal stands; the stretch, and what follows
  the literal. A greedy group of a class that excludes the first code unit of the
  literal, as in \<^verbatim>\<open>([^`]+)`\<close>, matches the same stretch.
\<close>

fun lazy_until :: "jsstring \<Rightarrow> (jschar \<Rightarrow> bool) \<Rightarrow> jsstring \<Rightarrow> (jsstring \<times> jsstring) option" where
  "lazy_until closing ok [] = (if closing = [] then Some ([], []) else None)"
| "lazy_until closing ok (c # cs) =
     (if prefix closing (c # cs) then Some ([], drop (length closing) (c # cs))
      else if ok c then
        (case lazy_until closing ok cs of
           Some (captured, rest) \<Rightarrow> Some (c # captured, rest)
         | None \<Rightarrow> None)
      else None)"

text \<open>
  A greedy dot-all group followed by a literal, as in \<^verbatim>\<open>.*<\/li>\<close> under the flag
  \<^verbatim>\<open>s\<close>: everything up to the last place where the literal stands, the literal
  included; and what follows it.
\<close>

fun greedy_until :: "jsstring \<Rightarrow> jsstring \<Rightarrow> (jsstring \<times> jsstring) option" where
  "greedy_until closing [] = (if closing = [] then Some ([], []) else None)"
| "greedy_until closing (c # cs) =
     (case greedy_until closing cs of
        Some (matched, rest) \<Rightarrow> Some (c # matched, rest)
      | None \<Rightarrow>
          if prefix closing (c # cs) then Some (closing, drop (length closing) (c # cs))
          else None)"

text \<open>
  The match of \<open>opening\<close>, a group, \<open>closing\<close> at the beginning of a string. With
  \<open>some\<close> the group must not be empty (a \<^verbatim>\<open>+\<close> in place of a \<^verbatim>\<open>*\<close>).
\<close>

definition span ::
  "jsstring \<Rightarrow> jsstring \<Rightarrow> (jschar \<Rightarrow> bool) \<Rightarrow> bool \<Rightarrow> jsstring \<Rightarrow> (jsstring \<times> jsstring) option" where
  "span opening closing ok some s =
     (if prefix opening s then
        (case lazy_until closing ok (drop (length opening) s) of
           Some (captured, rest) \<Rightarrow> if some \<and> captured = [] then None else Some (captured, rest)
         | None \<Rightarrow> None)
      else None)"

definition wrapped ::
  "jsstring \<Rightarrow> jsstring \<Rightarrow> (jsstring \<times> jsstring) option \<Rightarrow> (jsstring \<times> jsstring) option" where
  "wrapped opening closing found =
     (case found of
        Some (captured, rest) \<Rightarrow> Some (opening @ captured @ closing, rest)
      | None \<Rightarrow> None)"

text \<open>The twelve replacements, in the order of the source.\<close>

definition replace_h3 :: "jsstring \<Rightarrow> jsstring" where
  \<open>replace_h3 =
     map_lines (marked_line (js ''### '')
       (js ''<h3 class="text-lg font-semibold mt-4 mb-2">'') (js ''</h3>'')) []\<close>

definition replace_h2 :: "jsstring \<Rightarrow> jsstring" where
  \<open>replace_h2 =
     map_lines (marked_line (js ''## '')
       (js ''<h2 class="text-xl font-semibold mt-4 mb-2">'') (js ''</h2>'')) []\<close>

definition replace_h1 :: "jsstring \<Rightarrow> jsstring" where
  \<open>replace_h1 =
     map_lines (marked_line (js ''# '')
       (js ''<h1 class="text-2xl font-bold mt-4 mb-2">'') (js ''</h1>'')) []\<close>

definition replace_bold :: "jsstring \<Rightarrow> jsstring" where
  \<open>replace_bold =
     replace_g (\<lambda>s. wrapped (js ''<strong class="font-semibold">'') (js ''</strong>'')
       (span (js ''**'') (js ''**'') (\<lambda>c. \<not> isLineTerminator c) False s))\<close>

definition replace_italic :: "jsstring \<Rightarrow> jsstring" where
  \<open>replace_italic =
     replace_g (\<lambda>s. wrapped (js ''<em class="italic">'') (js ''</em>'')
       (span (js ''*'') (js ''*'') (\<lambda>c. \<not> isLineTerminator c) False s))\<close>

definition replace_code_block :: "jsstring \<Rightarrow> jsstring" where
  \<open>replace_code_block =
     replace_g (\<lambda>s. wrapped
       (js ''<pre class="bg-gray-100 dark:bg-gray-800 p-3 rounded-md my-2 overflow-x-auto"><code class="text-sm">'')
       (js ''</code></pre>'')
       (span (js ''```'') (js ''```'') (\<lambda>c. True) False s))\<close>

definition replace_inline_code :: "jsstring \<Rightarrow> jsstring" where
  \<open>replace_inline_code =
     replace_g (\<lambda>s. wrapped
       (js ''<code class="bg-gray-100 dark:bg-gray-800 px-1 py-0.5 rounded text-sm">'')
       (js ''</code>'')
       (span (js ''`'') (js ''`'') (\<lambda>c. c \<noteq> 0x0060) True s))\<close>

definition replace_bullets :: "jsstring \<Rightarrow> jsstring" where
  \<open>replace_bullets =
     map_lines (marked_line (js ''- '')
       (js ''<li class="ml-4">'' @ [0x2022] @ js '' '') (js ''</li>'')) []\<close>

definition wrap_list :: "jsstring \<Rightarrow> jsstring" where
  \<open>wrap_list =
     replace_first (\<lambda>s.
       if prefix (js ''<li'') s then
         (case greedy_until (js ''</li>'') (drop 3 s) of
            Some (matched, rest) \<Rightarrow>
              Some (js ''<ul class="my-2">'' @ js ''<li'' @ matched @ js ''</ul>'', rest)
          | None \<Rightarrow> None)
       else None)\<close>

definition replace_numbered :: "jsstring \<Rightarrow> jsstring" where
  \<open>replace_numbered =
     map_lines (numbered_line (js ''<li class="ml-4 list-decimal">'') (js ''</li>'')) []\<close>

definition replace_links :: "jsstring \<Rightarrow> jsstring" where
  \<open>replace_links =
     replace_g (\<lambda>s.
       (case span (js ''['') (js '']'') (\<lambda>c. c \<noteq> 0x005D) True s of
          Some (label, rest) \<Rightarrow>
            (case span (js ''('') (js '')'') (\<lambda>c. c \<noteq> 0x0029) True rest of
               Some (url, rest') \<Rightarrow>
                 Some (js ''<a href="'' @ url
                       @ js ''" class="text-blue-600 dark:text-blue-400 hover:underline" target="_blank">''
                       @ label @ js ''</a>'', rest')
             | None \<Rightarrow> None)
        | None \<Rightarrow> None))\<close>

definition replace_newlines :: "jsstring \<Rightarrow> jsstring" where
  \<open>replace_newlines =
     replace_g (\<lambda>s. case s of [] \<Rightarrow> None
                    | c # cs \<Rightarrow> if c = 0x000A then Some (js ''<br/>'', cs) else None)\<close>

definition headings :: "jsstring \<Rightarrow> jsstring" where
  "headings text = replace_h1 (replace_h2 (replace_h3 text))"

definition parseMarkdown :: "jsstring \<Rightarrow> jsstring" where
  "parseMarkdown text =
     (if text = [] then text
      else
        replace_newlines (replace_links (replace_numbered (wrap_list (replace_bullets
          (replace_inline_code (replace_code_block (replace_italic (replace_bold
            (headings text))))))))))"

text \<open>
  The code units to which no replacement reacts inside a line: all but the asterisk, the
  backtick, the opening bracket, the less-than sign and the line terminators.
\<close>

definition plain :: "jschar \<Rightarrow> bool" where
  "plain c = (c \<notin> set [0x002A, 0x0060, 0x005B, 0x003C, 0x000A, 0x000D, 0x2028, 0x2029])"

section \<open>Properties of the tracked file list\<close>

text \<open>
  C10. A status update changes only the items whose id is the target id: every other item
  is the same object afterwards, and the list keeps its length and order. An item with
  the target id keeps every field but status, progress and error.
\<close>

theorem updateFileStatus_frame:
  "length (updateFileStatus fileId st pr er prev) = length prev \<and>
   (\<forall>k < length prev.
      (id_f (prev ! k) \<noteq> fileId \<longrightarrow> updateFileStatus fileId st pr er prev ! k = prev ! k) \<and>
      (id_f (prev ! k) = fileId \<longrightarrow>
         updateFileStatus fileId st pr er prev ! k
           = (prev ! k)\<lparr>status := st, progress := pr, error := er\<rparr>))"
  by (simp add: updateFileStatus_def)

theorem updateFileStatus_frame_witness:
  "length (updateFileStatus 7 Uploading 40 None
             [fileObj (sample_pdf ''a.pdf'') 7, fileObj (sample_pdf ''b.pdf'') 8]) = 2 \<and>
   updateFileStatus 7 Uploading 40 None
     [fileObj (sample_pdf ''a.pdf'') 7, fileObj (sample_pdf ''b.pdf'') 8] ! 1
     = fileObj (sample_pdf ''b.pdf'') 8 \<and>
   status (updateFileStatus 7 Uploading 40 None
     [fileObj (sample_pdf ''a.pdf'') 7, fileObj (sample_pdf ''b.pdf'') 8] ! 0) = Uploading"
  using updateFileStatus_frame [of 7 Uploading 40 None
      "[fileObj (sample_pdf ''a.pdf'') 7, fileObj (sample_pdf ''b.pdf'') 8]"]
  by (simp add: fileObj_def)

text \<open>
  C7. A selection that would take the tracked list beyond 100 files is rejected as a
  whole: the tracked list is unchanged, nothing else of the state changes, and the one
  message reported is the aggregate one.
\<close>

theorem handleFileSelect_over_limit:
  assumes "length (files st) + length selectedFiles > 100"
  shows "handleFileSelect now selectedFiles st =
           st\<lparr>globalStatus :=
                js ''Cannot upload more than 100 files. Currently have ''
                @ String_of_nat (length (files st)) @ js '' files.''\<rparr>
         \<and> files (handleFileSelect now selectedFiles st) = files st"
proof -
  have "String_of_nat 100 = js ''100''"
    by (simp add: String_of_nat.simps js_def)
  with assms show ?thesis
    by (simp add: handleFileSelect_def MAX_FILES_def js_def)
qed

theorem handleFileSelect_over_limit_witness:
  "length (files \<lparr>files = replicate 97 (fileObj (sample_pdf ''a.pdf'') 0), uploading = False,
                  globalStatus = []\<rparr>)
     + length (map sample_pdf [''b.pdf'', ''c.pdf'', ''d.pdf'', ''e.pdf'', ''f.pdf'']) > 100 \<and>
   files (handleFileSelect (frozen_clock 1000)
            (map sample_pdf [''b.pdf'', ''c.pdf'', ''d.pdf'', ''e.pdf'', ''f.pdf''])
            \<lparr>files = replicate 97 (fileObj (sample_pdf ''a.pdf'') 0), uploading = False,
             globalStatus = []\<rparr>)
     = replicate 97 (fileObj (sample_pdf ''a.pdf'') 0) \<and>
   globalStatus (handleFileSelect (frozen_clock 1000)
            (map sample_pdf [''b.pdf'', ''c.pdf'', ''d.pdf'', ''e.pdf'', ''f.pdf''])
            \<lparr>files = replicate 97 (fileObj (sample_pdf ''a.pdf'') 0), uploading = False,
             globalStatus = []\<rparr>)
     = js ''Cannot upload more than 100 files. Currently have 97 files.''"
  using handleFileSelect_over_limit [of
      "\<lparr>files = replicate 97 (fileObj (sample_pdf ''a.pdf'') 0), uploading = False,
        globalStatus = []\<rparr>"
      "map sample_pdf [''b.pdf'', ''c.pdf'', ''d.pdf'', ''e.pdf'', ''f.pdf'']"
      "frozen_clock 1000"]
  by (simp add: String_of_nat.simps js_def)

section \<open>Duplicates and ids in a selection\<close>

lemma forEach_select_valid:
  "forEach_select fs now index sel validFiles errors = (vf, er) \<Longrightarrow>
   \<exists>added. vf = validFiles @ added \<and>
     (\<forall>a \<in> set added. \<not> list_ex (\<lambda>e. name e = name a \<and> size_f e = size_f a) fs)"
proof (induction sel arbitrary: index validFiles errors)
  case Nil
  then show ?case by simp
next
  case (Cons f rest)
  show ?case
  proof (cases "validateFile f")
    case (Some err)
    with Cons show ?thesis by simp
  next
    case None
    show ?thesis
    proof (cases "isDuplicate fs f")
      case True
      with None Cons show ?thesis by simp
    next
      case False
      with None Cons.prems
      have "forEach_select fs now (Suc index) rest
              (validFiles @ [fileObj f (now index + int index)]) errors = (vf, er)"
        by simp
      from Cons.IH [OF this] obtain added where
        a: "vf = (validFiles @ [fileObj f (now index + int index)]) @ added"
        and b: "\<forall>a \<in> set added. \<not> list_ex (\<lambda>e. name e = name a \<and> size_f e = size_f a) fs"
        by blast
      from False have "\<not> list_ex (\<lambda>e. name e = name (fileObj f (now index + int index))
            \<and> size_f e = size_f (fileObj f (now index + int index))) fs"
        by (simp add: isDuplicate_def fileObj_def)
      with a b show ?thesis
        by (intro exI [of _ "fileObj f (now index + int index) # added"]) simp
    qed
  qed
qed

lemma forEach_select_errors_mono:
  "forEach_select fs now index sel validFiles errors = (vf, er) \<Longrightarrow> set errors \<subseteq> set er"
proof (induction sel arbitrary: index validFiles errors)
  case Nil
  then show ?case by simp
next
  case (Cons f rest)
  have "\<exists>v e. forEach_select fs now (Suc index) rest v e = (vf, er) \<and> set errors \<subseteq> set e"
  proof (cases "validateFile f")
    case (Some err)
    with Cons.prems show ?thesis by (intro exI [of _ validFiles] exI [of _ "errors @ [file_name f @ js '': '' @ err]"]) auto
  next
    case None
    with Cons.prems show ?thesis
      by (cases "isDuplicate fs f") (force intro: exI [of _ "errors @ [x]" for x])+
  qed
  with Cons.IH show ?case by blast
qed

lemma forEach_select_duplicate:
  "forEach_select fs now index sel validFiles errors = (vf, er) \<Longrightarrow>
   f \<in> set sel \<Longrightarrow> validateFile f = None \<Longrightarrow> isDuplicate fs f \<Longrightarrow>
   file_name f @ js '': Duplicate file'' \<in> set er"
proof (induction sel arbitrary: index validFiles errors)
  case Nil
  then show ?case by simp
next
  case (Cons g rest)
  show ?case
  proof (cases "g = f")
    case True
    with Cons.prems have "forEach_select fs now (Suc index) rest validFiles
        (errors @ [file_name f @ js '': Duplicate file'']) = (vf, er)"
      by simp
    from forEach_select_errors_mono [OF this] show ?thesis by simp
  next
    case False
    with Cons.prems have "f \<in> set rest" by simp
    with Cons.IH Cons.prems(1,3,4) show ?thesis
      by (auto split: option.splits if_splits)
  qed
qed

lemma sublist_join: "x \<in> set xs \<Longrightarrow> sublist x (join sep xs)"
proof (induction sep xs rule: join.induct)
  case (1 sep)
  then show ?case by simp
next
  case (2 sep y)
  then show ?case by simp
next
  case (3 sep y z zs)
  show ?case
  proof (cases "x = y")
    case True
    then show ?thesis by (simp add: sublist_def) (metis append_Nil)
  next
    case False
    with 3 have "sublist x (join sep (z # zs))" by simp
    then show ?thesis
      by (simp add: sublist_append)
  qed
qed

lemmas selection_eval =
  handleFileSelect_def MAX_FILES_def MAX_FILE_SIZE_def validateFile_def isDuplicate_def
  fileObj_def sample_pdf_def frozen_clock_def js_def empty_state_def filesToUpload_def

lemma handleFileSelect_twice:
  "files (handleFileSelect now2 [g] (handleFileSelect now1 [g] st0))
     = files (handleFileSelect now1 [g] st0)"
  by (auto simp: handleFileSelect_def isDuplicate_def fileObj_def Let_def
           split: option.splits)

text \<open>
  What the duplicate check does: in a selection within the count limit, a candidate that
  passes \<open>validateFile\<close> and whose name and size are those of an item of the tracked
  list, as the callback closed over it, is not admitted, and the message reported
  contains \<open>name: Duplicate file\<close>. A file selected again in a later selection is thus
  turned away.
\<close>

lemma handleFileSelect_tracked_duplicate:
  assumes "length (files st) + length selectedFiles \<le> 100"
    and "f \<in> set selectedFiles"
    and "validateFile f = None"
    and "isDuplicate (files st) f"
  shows "(\<exists>added. files (handleFileSelect now selectedFiles st) = files st @ added \<and>
            (\<forall>a \<in> set added. \<not> (name a = file_name f \<and> size_f a = file_size f))) \<and>
         sublist (file_name f @ js '': Duplicate file'')
           (globalStatus (handleFileSelect now selectedFiles st)) \<and>
         (\<forall>g st0 now1 now2.
            files (handleFileSelect now2 [g] (handleFileSelect now1 [g] st0))
              = files (handleFileSelect now1 [g] st0))"
proof -
  obtain vf er where fe: "forEach_select (files st) now 0 selectedFiles [] [] = (vf, er)"
    by (cases "forEach_select (files st) now 0 selectedFiles [] []") simp
  from forEach_select_valid [OF fe] have
    fresh: "\<forall>a \<in> set vf. \<not> list_ex (\<lambda>e. name e = name a \<and> size_f e = size_f a) (files st)"
    by simp
  from assms(4) obtain e where e: "e \<in> set (files st)" "name e = file_name f" "size_f e = file_size f"
    by (auto simp: isDuplicate_def list_ex_iff)
  have other: "\<forall>a \<in> set vf. \<not> (name a = file_name f \<and> size_f a = file_size f)"
  proof
    fix a assume "a \<in> set vf"
    with fresh have "\<not> list_ex (\<lambda>e. name e = name a \<and> size_f e = size_f a) (files st)"
      by blast
    with e show "\<not> (name a = file_name f \<and> size_f a = file_size f)"
      by (auto simp: list_ex_iff)
  qed
  have msg: "file_name f @ js '': Duplicate file'' \<in> set er"
    using forEach_select_duplicate [OF fe assms(2,3,4)] .
  then have ne: "length er > 0" by (cases er) auto
  have files_eq: "files (handleFileSelect now selectedFiles st) = files st @ vf"
    using assms(1) fe by (simp add: handleFileSelect_def MAX_FILES_def Let_def)
  have status_eq: "globalStatus (handleFileSelect now selectedFiles st)
      = js ''Some files were rejected: '' @ join (js '', '') er"
    using assms(1) fe ne by (simp add: handleFileSelect_def MAX_FILES_def Let_def)
  have "sublist (file_name f @ js '': Duplicate file'')
          (globalStatus (handleFileSelect now selectedFiles st))"
    unfolding status_eq using sublist_join [OF msg] by (simp add: sublist_append)
  with files_eq other handleFileSelect_twice show ?thesis by blast
qed

text \<open>
  C5. The check compares a candidate with the tracked list only, never with the
  candidates the same selection has admitted before it. Two files with the same name and
  size in one selection are both admitted, and no message is reported.
\<close>

theorem handleFileSelect_same_selection:
  "files (handleFileSelect (frozen_clock 5) [sample_pdf ''a.pdf'', sample_pdf ''a.pdf'']
            empty_state)
     = [fileObj (sample_pdf ''a.pdf'') 5, fileObj (sample_pdf ''a.pdf'') 6] \<and>
   globalStatus (handleFileSelect (frozen_clock 5) [sample_pdf ''a.pdf'', sample_pdf ''a.pdf'']
            empty_state) = []"
  by (simp add: selection_eval)

text \<open>
  Within one selection the ids are distinct, as long as the clock does not run backwards
  during it: they grow with the index.
\<close>

lemma forEach_select_ids:
  assumes "forEach_select fs now index sel validFiles errors = (vf, er)"
    and "\<forall>i j. i \<le> j \<longrightarrow> now i \<le> now j"
    and "sorted_wrt (<) (map id_f validFiles)"
    and "\<forall>v \<in> set validFiles. id_f v < now index + int index"
  shows "sorted_wrt (<) (map id_f vf)"
  using assms
proof (induction sel arbitrary: index validFiles errors)
  case Nil
  then show ?case by simp
next
  case (Cons f rest)
  have later: "\<forall>v \<in> set validFiles. id_f v < now (Suc index) + int (Suc index)"
  proof
    fix v assume "v \<in> set validFiles"
    with Cons.prems(4) have "id_f v < now index + int index" by blast
    moreover from Cons.prems(2) have "now index \<le> now (Suc index)" by simp
    ultimately show "id_f v < now (Suc index) + int (Suc index)" by simp
  qed
  show ?case
  proof (cases "validateFile f = None \<and> \<not> isDuplicate fs f")
    case False
    with Cons.prems(1) obtain e where
      "forEach_select fs now (Suc index) rest validFiles e = (vf, er)"
      by (auto split: option.splits if_splits)
    from Cons.IH [OF this Cons.prems(2,3) later] show ?thesis .
  next
    case True
    let ?new = "fileObj f (now index + int index)"
    from True Cons.prems(1) have run:
      "forEach_select fs now (Suc index) rest (validFiles @ [?new]) errors = (vf, er)"
      by simp
    have s: "sorted_wrt (<) (map id_f (validFiles @ [?new]))"
      using Cons.prems(3,4) by (simp add: sorted_wrt_append fileObj_def)
    have "id_f ?new < now (Suc index) + int (Suc index)"
      using Cons.prems(2) [rule_format, of index "Suc index"] by (simp add: fileObj_def)
    with later have l: "\<forall>v \<in> set (validFiles @ [?new]). id_f v < now (Suc index) + int (Suc index)"
      by simp
    from Cons.IH [OF run Cons.prems(2) s l] show ?thesis .
  qed
qed

lemma forEach_select_distinct:
  assumes "forEach_select fs now 0 sel [] [] = (vf, er)"
    and "\<forall>i j. i \<le> j \<longrightarrow> now i \<le> now j"
  shows "distinct (map id_f vf)"
proof -
  from forEach_select_ids [OF assms] have "sorted_wrt (<) (map id_f vf)" by simp
  then show ?thesis by (simp add: strict_sorted_iff)
qed

text \<open>
  C6. The id of an item is the clock reading plus the candidate's index in its own
  selection. Two files selected at millisecond 1000 and one selected at millisecond 1001
  make a batch of three in which the second and the third item have the same id.
\<close>

theorem batch_ids_collide:
  "map id_f (filesToUpload (files
      (handleFileSelect (frozen_clock 1001) [sample_pdf ''c.pdf'']
        (handleFileSelect (frozen_clock 1000) [sample_pdf ''a.pdf'', sample_pdf ''b.pdf'']
           empty_state))))
     = [1000, 1001, 1001]"
  by (simp add: selection_eval)

section \<open>The streaming renderer reaches the source\<close>

lemma streamText_result:
  "streamText rnd source index k mc =
     mc\<lparr>displayedContent := displayedContent mc @ drop index source,
        streamingRef := False, completions := Suc (completions mc)\<rparr>"
proof (induction rnd source index k mc rule: streamText.induct)
  case (1 rnd source index k mc)
  show ?case
  proof (cases "index < length source")
    case False
    then show ?thesis by (subst streamText.simps) simp
  next
    case True
    obtain n k' where ck: "chunkSize rnd k = (n, k')" by (cases "chunkSize rnd k")
    have "take n (drop index source) @ drop (index + n) source = drop index source"
      by (metis append_take_drop_id drop_drop add.commute)
    with 1 [OF True ck [symmetric] refl] True ck show ?thesis
      by (subst streamText.simps) simp
  qed
qed

text \<open>
  C1, as the code has it. For every source string that is not empty, and whatever the
  random generator returns, a run of the renderer with streaming enabled ends with the
  displayed text equal to the source, the latch released, and one call of the completion
  callback. The empty string is not truthy: the run does not start, the displayed text
  stays empty and the callback is not called.
\<close>

theorem MessageContent_streams:
  "(source \<noteq> [] \<longrightarrow>
      displayedContent (MessageContent rnd source True) = source \<and>
      completions (MessageContent rnd source True) = 1 \<and>
      \<not> streamingRef (MessageContent rnd source True)) \<and>
   displayedContent (MessageContent rnd [] True) = [] \<and>
   completions (MessageContent rnd [] True) = 0"
  by (simp add: MessageContent_def useEffect_stream_def mounted_def streamText_result)

theorem MessageContent_streams_witness:
  "js ''hello'' \<noteq> [] \<and>
   displayedContent (MessageContent steady_random (js ''hello'') True) = js ''hello'' \<and>
   completions (MessageContent steady_random (js ''hello'') True) = 1"
  using MessageContent_streams [of "js ''hello''" steady_random]
  by (simp add: js_def)

text \<open>
  The claim as the specification words it includes the length 0, where the callback is
  called once. On the empty string it is not called.
\<close>

theorem MessageContent_streams_counterexample:
  "completions (MessageContent steady_random [] True) = 0"
  by (simp add: MessageContent_def useEffect_stream_def mounted_def)

section \<open>A failed chat turn\<close>

lemmas chat_eval =
  sendMessage_def createNewChat_def Let_def sample_view_def sample_env_def usable_def
  trim_def isWhiteSpace_def js_def String_of_int_def String_of_nat.simps
  other_chat_def other_messages_def

text \<open>
  What \<^verbatim>\<open>sendMessage\<close> does on a failure: it cuts the last two entries of the message
  list it finds and puts the trimmed draft back. When no event has touched the list
  during the request, these two entries are the optimistic ones and the list is what it
  was before the turn.
\<close>

lemma failed_sendMessage:
  assumes "trim (newMessage st) \<noteq> []" and "activeChat st \<noteq> None"
    and "usable outcome = Inl msg"
  shows "newMessage (sendMessage env outcome during st) = trim (newMessage st)"
    and "messages (sendMessage env outcome [] st) = messages st"
  using assms by (auto simp: sendMessage_def Let_def)

text \<open>
  C2. A chat creation fails (the call rejects with \<open>HTTP 500\<close>) on the draft \<open>hi\<close>,
  with no other event during the request. Afterwards the optimistic user message is
  still in the message list and the input is empty. The follow-up path on the same
  failure and draft removes both entries and puts \<open>hi\<close> back into the input.
\<close>

theorem createNewChat_failure_keeps_user_message:
  "messages (createNewChat sample_env (Rejected (js ''HTTP 500'')) [] (sample_view ''hi''))
     = [\<lparr>id_m = js ''user-1000'', role = User, content = js ''hi'',
         createdAt = js ''2024-01-01T00:00:00.000Z'', fullContent = None\<rparr>] \<and>
   newMessage (createNewChat sample_env (Rejected (js ''HTTP 500'')) [] (sample_view ''hi'')) = [] \<and>
   messages (sendMessage sample_env (Rejected (js ''HTTP 500'')) [] (sample_view ''hi'')) = [] \<and>
   newMessage (sendMessage sample_env (Rejected (js ''HTTP 500'')) [] (sample_view ''hi''))
     = js ''hi''"
  by (simp add: chat_eval)

text \<open>
  The removal is by position. When another chat is opened while the request is pending,
  a failure cuts the two messages of that chat; and the draft comes back trimmed of the
  white space at its ends.
\<close>

lemma sendMessage_failure_after_chat_switch:
  "messages (sendMessage sample_env (Rejected (js ''HTTP 500''))
       [LoadChatMessages other_chat other_messages] (sample_view ''hi'')) = [] \<and>
   activeChat (sendMessage sample_env (Rejected (js ''HTTP 500''))
       [LoadChatMessages other_chat other_messages] (sample_view ''hi'')) = Some other_chat"
  by (simp add: chat_eval)

lemma sendMessage_failure_trims_draft:
  "newMessage (sendMessage sample_env (Rejected (js ''HTTP 500'')) [] (sample_view '' hi''))
     = js ''hi''"
  by (simp add: chat_eval)

section \<open>The event loop runs every protocol to its end\<close>

lemma turn_append: "fst (turn q) @ snd (turn q) = q"
  by (cases q) simp_all

lemma concat_update_mset:
  assumes "k < length xs" and "xs ! k = a @ b"
  shows "mset a + mset (concat (xs[k := b])) = mset (concat xs)"
proof -
  have "xs = take k xs @ (a @ b) # drop (Suc k) xs"
    using assms by (metis id_take_nth_drop)
  moreover have "xs[k := b] = take k xs @ b # drop (Suc k) xs"
    using assms(1) by (rule upd_conv_take_nth_drop)
  ultimately show ?thesis
    by (metis (no_types, lifting) add.assoc add.left_commute concat.simps(2) concat_append mset_append)
qed

lemma concat_live: "concat (filter (\<lambda>q. q \<noteq> []) pending) = concat pending"
  by (induction pending) auto

lemma mset_event_loop: "mset (event_loop schedule pending) = mset (concat pending)"
proof (induction schedule arbitrary: pending)
  case Nil
  show ?case by simp
next
  case (Cons c cs)
  define live where "live = filter (\<lambda>q. q \<noteq> []) pending"
  show ?case
  proof (cases "live = []")
    case True
    then have "concat pending = []"
      using concat_live [of pending] by (simp add: live_def)
    with True show ?thesis by (simp add: live_def)
  next
    case False
    define k where "k = c mod length live"
    have k: "k < length live" using False by (simp add: k_def)
    obtain a b where t: "turn (live ! k) = (a, b)" by (cases "turn (live ! k)")
    then have ab: "live ! k = a @ b" using turn_append [of "live ! k"] by simp
    have "event_loop (c # cs) pending = a @ event_loop cs (live[k := b])"
      using False t by (simp add: live_def k_def Let_def)
    then have "mset (event_loop (c # cs) pending) = mset a + mset (concat (live[k := b]))"
      by (simp add: Cons.IH)
    also have "\<dots> = mset (concat live)" using concat_update_mset [OF k ab] .
    also have "\<dots> = mset (concat pending)" by (simp add: live_def concat_live)
    finally show ?thesis .
  qed
qed

lemma last_status_append:
  "last_status i (a @ b) =
     (case last_status i b of Some s \<Rightarrow> Some s | None \<Rightarrow> last_status i a)"
  by (induction a) (auto split: option.splits)

lemma ends_terminal_suffix: "ends_terminal i (a @ b) \<Longrightarrow> ends_terminal i b"
  by (auto simp: ends_terminal_def last_status_append split: option.splits)

lemma ends_terminal_prefix:
  "ends_terminal i (a @ b) \<Longrightarrow> last_status i b = None \<Longrightarrow> ends_terminal i a"
  by (auto simp: ends_terminal_def last_status_append split: option.splits)

lemma ends_terminal_append:
  "ends_terminal i a \<Longrightarrow> ends_terminal i b \<Longrightarrow> ends_terminal i (a @ b)"
  by (auto simp: ends_terminal_def last_status_append split: option.splits)

lemma last_status_append_None:
  "last_status i (a @ b) = None \<longleftrightarrow> last_status i a = None \<and> last_status i b = None"
  by (auto simp: last_status_append split: option.splits)

lemma ends_terminal_concat:
  "\<forall>q \<in> set qs. ends_terminal i q \<Longrightarrow> ends_terminal i (concat qs)"
proof (induction qs)
  case Nil
  show ?case by (simp add: ends_terminal_def)
next
  case (Cons q qs)
  then show ?case by (simp add: ends_terminal_append)
qed

lemma last_status_concat_None:
  "last_status i (concat qs) = None \<longleftrightarrow> (\<forall>q \<in> set qs. last_status i q = None)"
  by (induction qs) (auto simp: last_status_append_None)

lemma event_loop_ends_terminal:
  assumes "\<forall>q \<in> set pending. ends_terminal i q"
  shows "ends_terminal i (event_loop schedule pending) \<and>
         (last_status i (event_loop schedule pending) = None
            \<longrightarrow> (\<forall>q \<in> set pending. last_status i q = None))"
  using assms
proof (induction schedule arbitrary: pending)
  case Nil
  then show ?case by (simp add: ends_terminal_concat last_status_concat_None)
next
  case (Cons c cs)
  define live where "live = filter (\<lambda>q. q \<noteq> []) pending"
  show ?case
  proof (cases "live = []")
    case True
    then have "\<forall>q \<in> set pending. q = []"
      by (auto simp: live_def filter_empty_conv)
    with True show ?thesis by (auto simp: live_def ends_terminal_def)
  next
    case False
    define k where "k = c mod length live"
    have k: "k < length live" using False by (simp add: k_def)
    obtain a b where t: "turn (live ! k) = (a, b)" by (cases "turn (live ! k)")
    then have ab: "live ! k = a @ b" using turn_append [of "live ! k"] by simp
    have eq: "event_loop (c # cs) pending = a @ event_loop cs (live[k := b])"
      using False t by (simp add: live_def k_def Let_def)
    have live_ok: "\<forall>q \<in> set live. ends_terminal i q"
      using Cons.prems by (simp add: live_def)
    then have "ends_terminal i (a @ b)" using k ab by (metis nth_mem)
    then have b_ok: "ends_terminal i b" by (rule ends_terminal_suffix)
    have upd_ok: "\<forall>q \<in> set (live[k := b]). ends_terminal i q"
      using live_ok b_ok set_update_subset_insert [of live k b] by auto
    note IH = Cons.IH [OF upd_ok]
    let ?E = "event_loop cs (live[k := b])"
    have rest_none: "last_status i ?E = None \<Longrightarrow> \<forall>q \<in> set live. q \<noteq> live ! k \<longrightarrow> last_status i q = None"
    proof (intro ballI impI)
      fix q assume n: "last_status i ?E = None" and q: "q \<in> set live" "q \<noteq> live ! k"
      from q obtain j where j: "j < length live" "live ! j = q" by (auto simp: in_set_conv_nth)
      with q have "j \<noteq> k" by auto
      with j have "q \<in> set (live[k := b])"
        by (metis length_list_update nth_list_update_neq nth_mem)
      with IH n show "last_status i q = None" by blast
    qed
    have b_none: "last_status i ?E = None \<Longrightarrow> last_status i b = None"
      using IH k by (metis set_update_memI)
    have 1: "ends_terminal i (a @ ?E)"
    proof (cases "last_status i ?E")
      case None
      with b_none have "last_status i b = None" by simp
      with \<open>ends_terminal i (a @ b)\<close> have "ends_terminal i a" by (rule ends_terminal_prefix)
      with IH show ?thesis by (simp add: ends_terminal_append)
    next
      case (Some s)
      with IH show ?thesis by (simp add: ends_terminal_def last_status_append)
    qed
    have 2: "last_status i (a @ ?E) = None \<Longrightarrow> \<forall>q \<in> set pending. last_status i q = None"
    proof
      fix q assume n: "last_status i (a @ ?E) = None" and q: "q \<in> set pending"
      from n have na: "last_status i a = None" and ne: "last_status i ?E = None"
        by (simp_all add: last_status_append_None)
      show "last_status i q = None"
      proof (cases "q = []")
        case True then show ?thesis by simp
      next
        case False
        with q have ql: "q \<in> set live" by (simp add: live_def)
        show ?thesis
        proof (cases "q = live ! k")
          case True
          with ab na b_none [OF ne] show ?thesis by (simp add: last_status_append_None)
        next
          case False
          with rest_none [OF ne] ql show ?thesis by blast
        qed
      qed
    qed
    from 1 2 show ?thesis unfolding eq by blast
  qed
qed

lemma run_group_ends_terminal:
  assumes "\<forall>p \<in> set protocols. ends_terminal i p"
  shows "ends_terminal i (run_group schedule protocols) \<and>
         (last_status i (run_group schedule protocols) = None
            \<longrightarrow> (\<forall>p \<in> set protocols. last_status i p = None))"
proof -
  let ?A = "concat (map (\<lambda>p. fst (turn p)) protocols)"
  let ?R = "map (\<lambda>p. snd (turn p)) protocols"
  let ?E = "event_loop schedule ?R"
  have r_ok: "\<forall>q \<in> set ?R. ends_terminal i q"
    using assms by (auto intro: ends_terminal_suffix [of i "fst (turn p)" "snd (turn p)" for p]
                         simp: turn_append)
  note E = event_loop_ends_terminal [OF r_ok, of schedule]
  have a_ok: "last_status i ?E = None \<Longrightarrow> ends_terminal i ?A"
  proof -
    assume n: "last_status i ?E = None"
    have "\<forall>q \<in> set (map (\<lambda>p. fst (turn p)) protocols). ends_terminal i q"
    proof
      fix q assume "q \<in> set (map (\<lambda>p. fst (turn p)) protocols)"
      then obtain p where p: "p \<in> set protocols" "q = fst (turn p)" by auto
      with E n have "last_status i (snd (turn p)) = None" by auto
      moreover from assms p have "ends_terminal i (fst (turn p) @ snd (turn p))"
        by (simp add: turn_append)
      ultimately show "ends_terminal i q" using p by (simp add: ends_terminal_prefix)
    qed
    then show ?thesis by (rule ends_terminal_concat)
  qed
  have 1: "ends_terminal i (?A @ ?E)"
  proof (cases "last_status i ?E")
    case None
    with a_ok E show ?thesis by (simp add: ends_terminal_append)
  next
    case (Some s)
    with E show ?thesis by (simp add: ends_terminal_def last_status_append)
  qed
  have 2: "last_status i (?A @ ?E) = None \<Longrightarrow> \<forall>p \<in> set protocols. last_status i p = None"
  proof
    fix p assume n: "last_status i (?A @ ?E) = None" and p: "p \<in> set protocols"
    from n have "last_status i ?A = None" "last_status i ?E = None"
      by (simp_all add: last_status_append_None)
    with E p have "last_status i (fst (turn p)) = None" "last_status i (snd (turn p)) = None"
      by (auto simp: last_status_concat_None)
    then have "last_status i (fst (turn p) @ snd (turn p)) = None"
      by (simp add: last_status_append_None)
    then show "last_status i p = None" by (simp add: turn_append)
  qed
  from 1 2 show ?thesis unfolding run_group_def by blast
qed

subsection \<open>What one protocol does\<close>

lemma try_block_events:
  "e \<in> set (fst (try_block n env f)) \<Longrightarrow>
     e = Callback n \<or> (\<exists>s p er. e = Update (id_f f) s p er)"
  by (auto simp: try_block_def Let_def split: if_splits settlement.splits option.splits xhr_end.splits)

lemma last_status_other:
  "(\<forall>e \<in> set evs. \<forall>s p er. e \<noteq> Update i s p er) \<Longrightarrow> last_status i evs = None"
  by (induction evs) (auto split: event.splits)

lemma uploadSingleFile_other:
  assumes "i \<noteq> id_f f"
  shows "last_status i (fst (uploadSingleFile n env f)) = None"
proof (rule last_status_other, intro ballI allI)
  fix e s p er assume "e \<in> set (fst (uploadSingleFile n env f))"
  then have "e = Start n \<or> e = Settle n \<or> e \<in> set (fst (try_block n env f))
      \<or> (\<exists>msg. e = Update (id_f f) Failed 0 (Some msg))"
    by (auto simp: uploadSingleFile_def split: prod.splits option.splits)
  with try_block_events [of e n env f] assms show "e \<noteq> Update i s p er" by auto
qed

lemma uploadSingleFile_own:
  "last_status (id_f f) (fst (uploadSingleFile n env f))
     = Some (if success_r (snd (uploadSingleFile n env f)) then Completed else Failed)"
proof (cases "snd (try_block n env f)")
  case (Some msg)
  then show ?thesis
    by (cases "try_block n env f") (simp add: uploadSingleFile_def last_status_append)
next
  case None
  then obtain evs where evs: "try_block n env f = (evs @ [Update (id_f f) Completed 100 None], None)"
    by (auto simp: try_block_def Let_def split: if_splits settlement.splits option.splits xhr_end.splits)
  then show ?thesis
    by (simp add: uploadSingleFile_def last_status_append)
qed

lemma uploadSingleFile_ends_terminal: "ends_terminal i (fst (uploadSingleFile n env f))"
  by (cases "i = id_f f") (simp_all add: ends_terminal_def uploadSingleFile_own uploadSingleFile_other)

lemma uploadSingleFile_last_status_None:
  "last_status i (fst (uploadSingleFile n env f)) = None \<longleftrightarrow> i \<noteq> id_f f"
  using uploadSingleFile_own [of f n env] uploadSingleFile_other [of i f n env] by auto

subsection \<open>The loop over the groups\<close>

lemma upload_loop_unfold:
  "i < length ftu \<Longrightarrow>
   upload_loop sched env ftu i =
     (run_group (sched i)
        (map (\<lambda>(j, f). fst (uploadSingleFile j (env j) f))
           (enumerate i (take batchSize (drop i ftu))))
        @ fst (upload_loop sched env ftu (i + batchSize)),
      map (\<lambda>(j, f). snd (uploadSingleFile j (env j) f))
        (enumerate i (take batchSize (drop i ftu)))
        @ snd (upload_loop sched env ftu (i + batchSize)))"
  by (subst upload_loop.simps) (simp add: Let_def split: prod.splits, simp add: case_prod_unfold comp_def)

lemma upload_loop_done: "\<not> i < length ftu \<Longrightarrow> upload_loop sched env ftu i = ([], [])"
  by (subst upload_loop.simps) simp

lemma upload_loop_ends_terminal:
  "ends_terminal x (fst (upload_loop sched env ftu i)) \<and>
   (last_status x (fst (upload_loop sched env ftu i)) = None
      \<longrightarrow> x \<notin> id_f ` set (drop i ftu))"
proof (induction sched env ftu i rule: upload_loop.induct)
  case (1 sched env ftu i)
  show ?case
  proof (cases "i < length ftu")
    case False
    then show ?thesis by (simp add: upload_loop_done ends_terminal_def)
  next
    case True
    let ?batch = "take batchSize (drop i ftu)"
    let ?ps = "map (\<lambda>(j, f). fst (uploadSingleFile j (env j) f)) (enumerate i ?batch)"
    let ?G = "run_group (sched i) ?ps"
    let ?L = "fst (upload_loop sched env ftu (i + batchSize))"
    have IH: "ends_terminal x ?L \<and> (last_status x ?L = None \<longrightarrow> x \<notin> id_f ` set (drop (i + batchSize) ftu))"
      using 1 [OF True refl refl] .
    have ps_ok: "\<forall>p \<in> set ?ps. ends_terminal x p"
      by (auto simp: uploadSingleFile_ends_terminal)
    note G = run_group_ends_terminal [OF ps_ok, of "sched i"]
    have eq: "fst (upload_loop sched env ftu i) = ?G @ ?L"
      using True by (simp add: upload_loop_unfold)
    have 1: "ends_terminal x (?G @ ?L)"
      using G IH by (simp add: ends_terminal_append)
    have 2: "x \<notin> id_f ` set (drop i ftu)" if n: "last_status x (?G @ ?L) = None"
    proof -
      from n have g: "last_status x ?G = None" and l: "last_status x ?L = None"
        by (simp_all add: last_status_append_None)
      from l IH have later: "x \<notin> id_f ` set (drop (i + batchSize) ftu)" by blast
      have "x \<notin> id_f ` set ?batch"
      proof
        assume "x \<in> id_f ` set ?batch"
        then obtain f where f: "f \<in> set ?batch" "x = id_f f" by auto
        then obtain k where k: "k < length ?batch" "?batch ! k = f"
          by (auto simp: in_set_conv_nth)
        then have "(i + k, f) \<in> set (enumerate i ?batch)"
          by (auto simp: in_set_enumerate_eq)
        then have "fst (uploadSingleFile (i + k) (env (i + k)) f) \<in> set ?ps"
          by force
        with G g have "last_status x (fst (uploadSingleFile (i + k) (env (i + k)) f)) = None"
          by blast
        with f show False by (simp add: uploadSingleFile_last_status_None)
      qed
      moreover have "drop i ftu = ?batch @ drop (i + batchSize) ftu"
        by (metis append_take_drop_id drop_drop add.commute)
      ultimately show ?thesis using later
        by (metis (no_types, lifting) Un_iff image_Un set_append)
    qed
    from 1 2 show ?thesis unfolding eq by blast
  qed
qed

lemma apply_event_length: "length (apply_event e prev) = length prev"
  by (cases e) (simp_all add: updateFileStatus_def)

lemma apply_event_nth:
  "k < length prev \<Longrightarrow>
   id_f (apply_event e prev ! k) = id_f (prev ! k) \<and>
   status (apply_event e prev ! k)
     = (case e of Update j s pr er \<Rightarrow> if j = id_f (prev ! k) then s else status (prev ! k)
        | _ \<Rightarrow> status (prev ! k))"
  by (cases e) (simp_all add: updateFileStatus_def)

lemma replay_length: "length (replay evs prev) = length prev"
  by (induction evs arbitrary: prev) (simp_all add: apply_event_length)

lemma replay_nth:
  "k < length prev \<Longrightarrow>
   id_f (replay evs prev ! k) = id_f (prev ! k) \<and>
   status (replay evs prev ! k)
     = (case last_status (id_f (prev ! k)) evs of None \<Rightarrow> status (prev ! k) | Some s \<Rightarrow> s)"
proof (induction evs arbitrary: prev)
  case Nil
  then show ?case by simp
next
  case (Cons e evs)
  from Cons.prems have k: "k < length (apply_event e prev)" by (simp add: apply_event_length)
  from Cons.IH [OF k] apply_event_nth [OF Cons.prems, of e]
  show ?case by (auto split: option.splits event.splits)
qed

lemma upload_loop_results:
  "snd (upload_loop sched env ftu i)
     = map (\<lambda>j. snd (uploadSingleFile j (env j) (ftu ! j))) [i ..< length ftu]"
proof (induction sched env ftu i rule: upload_loop.induct)
  case (1 sched env ftu i)
  show ?case
  proof (cases "i < length ftu")
    case False
    then show ?thesis by (simp add: upload_loop_done)
  next
    case True
    let ?batch = "take batchSize (drop i ftu)"
    have IH: "snd (upload_loop sched env ftu (i + batchSize))
       = map (\<lambda>j. snd (uploadSingleFile j (env j) (ftu ! j))) [i + batchSize ..< length ftu]"
      using 1 [OF True refl refl] .
    have b: "map (\<lambda>(j, f). snd (uploadSingleFile j (env j) f)) (enumerate i ?batch)
       = map (\<lambda>j. snd (uploadSingleFile j (env j) (ftu ! j))) [i ..< min (i + batchSize) (length ftu)]"
    proof (rule nth_equalityI)
      show "length (map (\<lambda>(j, f). snd (uploadSingleFile j (env j) f)) (enumerate i ?batch))
        = length (map (\<lambda>j. snd (uploadSingleFile j (env j) (ftu ! j)))
            [i ..< min (i + batchSize) (length ftu)])"
        by (auto simp: min_def)
    next
      fix k assume "k < length (map (\<lambda>(j, f). snd (uploadSingleFile j (env j) f)) (enumerate i ?batch))"
      then have k: "k < length ?batch" by simp
      then have k2: "k < batchSize" "i + k < length ftu" by auto
      then have "?batch ! k = ftu ! (i + k)" by simp
      moreover have "[i ..< min (i + batchSize) (length ftu)] ! k = i + k"
        using k2 by simp
      ultimately show "map (\<lambda>(j, f). snd (uploadSingleFile j (env j) f)) (enumerate i ?batch) ! k
        = map (\<lambda>j. snd (uploadSingleFile j (env j) (ftu ! j)))
            [i ..< min (i + batchSize) (length ftu)] ! k"
        using k k2 by (simp add: nth_enumerate_eq)
    qed
    have "[i ..< length ftu] = [i ..< min (i + batchSize) (length ftu)] @ [i + batchSize ..< length ftu]"
    proof (cases "i + batchSize \<le> length ftu")
      case True
      then show ?thesis
        by (simp add: min_def) (metis le_add1 upt_add_eq_append le_Suc_ex)
    next
      case False
      then show ?thesis by (simp add: min_def)
    qed
    with True IH b show ?thesis
      by (simp add: upload_loop_unfold del: upt_Suc)
  qed
qed

section \<open>Starts, settlements and groups\<close>

lemma started_append: "started (a @ b) = started a @ started b"
  by (induction a rule: started.induct) simp_all

lemma settled_append: "settled (a @ b) = settled a @ settled b"
  by (induction a rule: settled.induct) simp_all

lemma set_started: "n \<in> set (started evs) \<longleftrightarrow> Start n \<in> set evs"
  by (induction evs rule: started.induct) auto

lemma set_settled: "n \<in> set (settled evs) \<longleftrightarrow> Settle n \<in> set evs"
  by (induction evs rule: settled.induct) auto

lemma started_none: "(\<forall>n. Start n \<notin> set evs) \<Longrightarrow> started evs = []"
  by (induction evs rule: started.induct) auto

lemma uploadSingleFile_shape:
  "\<exists>evs. fst (uploadSingleFile n env f) = Start n # evs @ [Settle n] \<and>
         (\<forall>e \<in> set evs. e = Callback n \<or> (\<exists>s p er. e = Update (id_f f) s p er))"
proof (cases "try_block n env f")
  case (Pair evs thrown)
  with try_block_events [of _ n env f]
  have ev: "\<forall>e \<in> set evs. e = Callback n \<or> (\<exists>s p er. e = Update (id_f f) s p er)"
    by auto
  show ?thesis
  proof (cases thrown)
    case None
    with Pair ev show ?thesis by (simp add: uploadSingleFile_def)
  next
    case (Some msg)
    with Pair ev show ?thesis
      by (intro exI [of _ "evs @ [Update (id_f f) Failed 0 (Some msg)]"])
         (auto simp: uploadSingleFile_def)
  qed
qed

lemma started_body:
  "\<forall>e \<in> set evs. e = Callback n \<or> (\<exists>s p er. e = Update i s p er) \<Longrightarrow> started evs = []"
  by (rule started_none) auto

lemma uploadSingleFile_started: "started (fst (uploadSingleFile n env f)) = [n]"
  using uploadSingleFile_shape [of n env f]
  by (auto simp: started_append started_body)

lemma uploadSingleFile_Start: "Start m \<in> set (fst (uploadSingleFile n env f)) \<longleftrightarrow> m = n"
  using uploadSingleFile_started [of n env f] set_started [of m "fst (uploadSingleFile n env f)"]
  by simp

lemma uploadSingleFile_Settle: "Settle m \<in> set (fst (uploadSingleFile n env f)) \<longleftrightarrow> m = n"
  using uploadSingleFile_shape [of n env f] by auto

lemma uploadSingleFile_Callback: "Callback m \<in> set (fst (uploadSingleFile n env f)) \<Longrightarrow> m = n"
  using uploadSingleFile_shape [of n env f] by auto

lemma uploadSingleFile_sync:
  "Start n \<in> set (fst (turn (fst (uploadSingleFile n env f)))) \<and>
   (\<forall>m. Callback m \<notin> set (fst (turn (fst (uploadSingleFile n env f)))))"
proof -
  obtain evs where "fst (uploadSingleFile n env f) = Start n # evs"
    using uploadSingleFile_shape [of n env f] by auto
  then show ?thesis
    by (auto dest: set_takeWhileD)
qed

lemma set_turn: "set (fst (turn q)) \<union> set (snd (turn q)) = set q"
  by (metis set_append turn_append)

lemma set_event_loop: "set (event_loop schedule pending) = set (concat pending)"
  by (metis mset_event_loop set_mset_mset)

lemma set_run_group: "set (run_group schedule ps) = set (concat ps)"
proof -
  have "set (run_group schedule ps) = (\<Union>p \<in> set ps. set (fst (turn p)) \<union> set (snd (turn p)))"
    by (auto simp: run_group_def set_event_loop)
  then show ?thesis by (simp add: set_turn)
qed

lemma protocols_of_Nil: "protocols_of env i [] = []"
  by (simp add: protocols_of_def)

lemma protocols_of_Cons:
  "protocols_of env i (f # fs) = fst (uploadSingleFile i (env i) f) # protocols_of env (Suc i) fs"
  by (simp add: protocols_of_def)

lemma in_protocols_of:
  "p \<in> set (protocols_of env i batch) \<longleftrightarrow>
     (\<exists>k < length batch. p = fst (uploadSingleFile (i + k) (env (i + k)) (batch ! k)))"
proof (induction batch arbitrary: i)
  case Nil
  show ?case by (simp add: protocols_of_Nil)
next
  case (Cons f fs)
  show ?case
  proof
    assume "p \<in> set (protocols_of env i (f # fs))"
    then consider "p = fst (uploadSingleFile i (env i) f)" | "p \<in> set (protocols_of env (Suc i) fs)"
      by (auto simp: protocols_of_Cons)
    then show "\<exists>k < length (f # fs). p = fst (uploadSingleFile (i + k) (env (i + k)) ((f # fs) ! k))"
    proof cases
      case 1
      then show ?thesis by (intro exI [of _ 0]) simp
    next
      case 2
      with Cons.IH [of "Suc i"] obtain k where "k < length fs"
        "p = fst (uploadSingleFile (Suc i + k) (env (Suc i + k)) (fs ! k))" by blast
      then show ?thesis by (intro exI [of _ "Suc k"]) simp
    qed
  next
    assume "\<exists>k < length (f # fs). p = fst (uploadSingleFile (i + k) (env (i + k)) ((f # fs) ! k))"
    then obtain k where k: "k < length (f # fs)"
      "p = fst (uploadSingleFile (i + k) (env (i + k)) ((f # fs) ! k))" by blast
    show "p \<in> set (protocols_of env i (f # fs))"
    proof (cases k)
      case 0
      with k show ?thesis by (simp add: protocols_of_Cons)
    next
      case (Suc k')
      with k have "k' < length fs"
        "p = fst (uploadSingleFile (Suc i + k') (env (Suc i + k')) (fs ! k'))" by simp_all
      with Cons.IH [of "Suc i"] show ?thesis by (auto simp: protocols_of_Cons)
    qed
  qed
qed

lemma group_member:
  "e \<in> set (run_group schedule (protocols_of env i batch)) \<longleftrightarrow>
     (\<exists>k < length batch. e \<in> set (fst (uploadSingleFile (i + k) (env (i + k)) (batch ! k))))"
proof
  assume "e \<in> set (run_group schedule (protocols_of env i batch))"
  then obtain p where p: "p \<in> set (protocols_of env i batch)" "e \<in> set p"
    by (auto simp: set_run_group)
  from p(1) obtain k where "k < length batch"
    "p = fst (uploadSingleFile (i + k) (env (i + k)) (batch ! k))"
    unfolding in_protocols_of by blast
  with p(2) show "\<exists>k < length batch.
      e \<in> set (fst (uploadSingleFile (i + k) (env (i + k)) (batch ! k)))"
    by blast
next
  assume "\<exists>k < length batch. e \<in> set (fst (uploadSingleFile (i + k) (env (i + k)) (batch ! k)))"
  then obtain k where k: "k < length batch"
    "e \<in> set (fst (uploadSingleFile (i + k) (env (i + k)) (batch ! k)))" by blast
  from k(1) have "fst (uploadSingleFile (i + k) (env (i + k)) (batch ! k))
      \<in> set (protocols_of env i batch)"
    unfolding in_protocols_of by blast
  with k(2) show "e \<in> set (run_group schedule (protocols_of env i batch))"
    unfolding set_run_group by auto
qed

lemma offset_range: "(\<exists>k < n. m = i + k) \<longleftrightarrow> i \<le> m \<and> m < i + (n::nat)"
proof
  assume "\<exists>k < n. m = i + k"
  then show "i \<le> m \<and> m < i + n" by auto
next
  assume "i \<le> m \<and> m < i + n"
  then have "m - i < n" "m = i + (m - i)" by auto
  then show "\<exists>k < n. m = i + k" by blast
qed

lemma group_Start:
  "Start m \<in> set (run_group schedule (protocols_of env i batch)) \<longleftrightarrow> i \<le> m \<and> m < i + length batch"
  unfolding group_member uploadSingleFile_Start by (rule offset_range)

lemma group_Settle:
  "Settle m \<in> set (run_group schedule (protocols_of env i batch)) \<longleftrightarrow> i \<le> m \<and> m < i + length batch"
  unfolding group_member uploadSingleFile_Settle by (rule offset_range)

lemma group_Callback:
  assumes "Callback m \<in> set (run_group schedule (protocols_of env i batch))"
  shows "i \<le> m \<and> m < i + length batch"
proof -
  from assms obtain k where "k < length batch"
    "Callback m \<in> set (fst (uploadSingleFile (i + k) (env (i + k)) (batch ! k)))"
    by (auto simp: group_member)
  then have "\<exists>k < length batch. m = i + k"
    by (metis uploadSingleFile_Callback)
  then show ?thesis by (simp add: offset_range)
qed

lemma sync_started:
  "started (fst (turn (fst (uploadSingleFile n env f)))) = [n] \<and>
   started (snd (turn (fst (uploadSingleFile n env f)))) = []"
proof -
  let ?s = "fst (uploadSingleFile n env f)"
  obtain evs0 where s0: "?s = Start n # evs0 @ [Settle n]"
    and b: "\<forall>e \<in> set evs0. e = Callback n \<or> (\<exists>s p er. e = Update (id_f f) s p er)"
    using uploadSingleFile_shape [of n env f] by blast
  define evs where "evs = evs0 @ [Settle n]"
  have s: "?s = Start n # evs" using s0 by (simp add: evs_def)
  have "\<forall>m. Start m \<notin> set evs" using b by (auto simp: evs_def)
  then have "\<forall>m. Start m \<notin> set (takeWhile (\<lambda>x. \<not> is_Callback x) evs)"
    "\<forall>m. Start m \<notin> set (dropWhile (\<lambda>x. \<not> is_Callback x) evs)"
    by (auto dest: set_takeWhileD set_dropWhileD)
  then have "started (takeWhile (\<lambda>x. \<not> is_Callback x) evs) = []"
    "started (dropWhile (\<lambda>x. \<not> is_Callback x) evs) = []"
    by (simp_all add: started_none)
  with s show ?thesis by simp
qed

lemma started_syncs:
  "started (concat (map (\<lambda>p. fst (turn p)) (protocols_of env i batch))) = [i ..< i + length batch]"
proof (induction batch arbitrary: i)
  case Nil
  show ?case by (simp add: protocols_of_Nil)
next
  case (Cons f fs)
  have "[i ..< Suc (i + length fs)] = i # [Suc i ..< Suc (i + length fs)]"
    by (rule upt_conv_Cons) simp
  with Cons.IH [of "Suc i"] show ?case
    by (simp add: protocols_of_Cons started_append sync_started del: upt_Suc)
qed

lemma started_rests:
  "started (event_loop schedule (map (\<lambda>p. snd (turn p)) (protocols_of env i batch))) = []"
proof (rule started_none, intro allI notI)
  fix m assume "Start m \<in> set (event_loop schedule (map (\<lambda>p. snd (turn p)) (protocols_of env i batch)))"
  then obtain p where "p \<in> set (protocols_of env i batch)" "Start m \<in> set (snd (turn p))"
    by (auto simp: set_event_loop)
  then obtain k where "Start m \<in> set (snd (turn (fst (uploadSingleFile (i + k) (env (i + k)) (batch ! k)))))"
    by (auto simp: in_protocols_of)
  then have "m \<in> set (started (snd (turn (fst (uploadSingleFile (i + k) (env (i + k)) (batch ! k))))))"
    by (simp add: set_started)
  then show False by (simp add: sync_started)
qed

lemma group_started:
  "started (run_group schedule (protocols_of env i batch)) = [i ..< i + length batch]"
  by (simp add: run_group_def started_append started_syncs started_rests)

lemma prefix_started: "prefix p t \<Longrightarrow> prefix (started p) (started t)"
  by (auto simp: prefix_def started_append)

lemma in_flight_le_started: "length (in_flight p) \<le> length (started p)"
  by (simp add: in_flight_def)

lemma group_in_flight:
  assumes "prefix p (run_group schedule (protocols_of env i batch))"
  shows "length (in_flight p) \<le> length batch"
proof -
  from prefix_started [OF assms] have "length (started p) \<le> length batch"
    by (auto simp: group_started dest: prefix_length_le)
  with in_flight_le_started [of p] show ?thesis by linarith
qed

lemma group_all_start_first:
  assumes "prefix p (run_group schedule (protocols_of env i batch))"
    and "Callback m \<in> set p" and "i \<le> n" and "n < i + length batch"
  shows "Start n \<in> set p"
proof -
  let ?A = "concat (map (\<lambda>p. fst (turn p)) (protocols_of env i batch))"
  let ?E = "event_loop schedule (map (\<lambda>p. snd (turn p)) (protocols_of env i batch))"
  have noCb: "Callback m \<notin> set ?A"
    by (auto simp: in_protocols_of uploadSingleFile_sync)
  from assms(1) have "prefix p (?A @ ?E)" by (simp add: run_group_def)
  then consider "prefix p ?A" | p' where "p = ?A @ p'"
    by (auto simp: prefix_append)
  then show ?thesis
  proof cases
    case 1
    then have "set p \<subseteq> set ?A" by (rule set_mono_prefix)
    with assms(2) noCb show ?thesis by blast
  next
    case 2
    from assms(3,4) have "n \<in> set (started ?A)" by (simp add: started_syncs)
    then have "Start n \<in> set ?A" by (simp add: set_started)
    with 2 show ?thesis by simp
  qed
qed

lemma filter_length_mono:
  "(\<And>x. P x \<Longrightarrow> Q x) \<Longrightarrow> length (filter P xs) \<le> length (filter Q xs)"
  by (induction xs) auto

lemma in_flight_after_group:
  assumes "\<forall>n \<in> set (started g). n \<in> set (settled g)"
  shows "length (in_flight (g @ p)) \<le> length (in_flight p)"
proof -
  have "filter (\<lambda>n. n \<notin> set (settled (g @ p))) (started g) = []"
    using assms by (auto simp: settled_append filter_empty_conv)
  then have "length (in_flight (g @ p))
      = length (filter (\<lambda>n. n \<notin> set (settled (g @ p))) (started p))"
    by (simp add: in_flight_def started_append)
  also have "\<dots> \<le> length (filter (\<lambda>n. n \<notin> set (settled p)) (started p))"
    by (rule filter_length_mono) (simp add: settled_append)
  finally show ?thesis by (simp add: in_flight_def)
qed

lemma upload_loop_step:
  "i < length ftu \<Longrightarrow>
   fst (upload_loop sched env ftu i) =
     run_group (sched i) (protocols_of env i (take batchSize (drop i ftu)))
     @ fst (upload_loop sched env ftu (i + batchSize))"
  by (simp add: upload_loop_unfold protocols_of_def)

lemma batch_length:
  "i < length ftu \<Longrightarrow>
   0 < length (take batchSize (drop i ftu)) \<and> length (take batchSize (drop i ftu)) \<le> 3 \<and>
   i + length (take batchSize (drop i ftu)) = min (i + 3) (length ftu)"
  by (auto simp: batchSize_def)

lemma group_settles_all:
  "\<forall>n \<in> set (started (run_group schedule (protocols_of env i batch))).
      n \<in> set (settled (run_group schedule (protocols_of env i batch)))"
  by (simp add: set_started set_settled group_Start group_Settle)

lemma upload_loop_in_flight:
  "prefix p (fst (upload_loop sched env ftu i)) \<Longrightarrow> length (in_flight p) \<le> 3"
proof (induction sched env ftu i arbitrary: p rule: upload_loop.induct)
  case (1 sched env ftu i)
  show ?case
  proof (cases "i < length ftu")
    case False
    with 1(2) show ?thesis by (simp add: upload_loop_done in_flight_def)
  next
    case True
    note len = batch_length [OF True]
    let ?G = "run_group (sched i) (protocols_of env i (take batchSize (drop i ftu)))"
    from 1(2) True have "prefix p (?G @ fst (upload_loop sched env ftu (i + batchSize)))"
      by (simp add: upload_loop_step)
    then consider "prefix p ?G"
      | p' where "p = ?G @ p'" "prefix p' (fst (upload_loop sched env ftu (i + batchSize)))"
      by (auto simp: prefix_append)
    then show ?thesis
    proof cases
      case 1
      from group_in_flight [OF this] len show ?thesis by linarith
    next
      case 2
      from 1(1) [OF True refl refl 2(2)] have "length (in_flight p') \<le> 3" .
      with in_flight_after_group [OF group_settles_all, of "sched i" env i
          "take batchSize (drop i ftu)" p'] 2(1)
      show ?thesis by simp
    qed
  qed
qed

lemma upload_loop_sequential:
  "prefix p (fst (upload_loop sched env ftu i)) \<Longrightarrow> i \<le> m \<Longrightarrow> m < length ftu \<Longrightarrow>
   n < length ftu \<Longrightarrow> (m - i) div 3 < (n - i) div 3 \<Longrightarrow> Start n \<in> set p \<Longrightarrow>
   Settle m \<in> set p"
proof (induction sched env ftu i arbitrary: p rule: upload_loop.induct)
  case (1 sched env ftu i)
  from 1(3,4) have True: "i < length ftu" by simp
  note len = batch_length [OF True]
  let ?G = "run_group (sched i) (protocols_of env i (take batchSize (drop i ftu)))"
  let ?L = "fst (upload_loop sched env ftu (i + batchSize))"
  from 1(6) have n3: "i + 3 \<le> n" by (cases "n - i < 3") auto
  then have "Start n \<notin> set ?G" unfolding group_Start using len by simp
  moreover from 1(2) True have "prefix p (?G @ ?L)" by (simp add: upload_loop_step)
  ultimately have "\<not> prefix p ?G \<and> prefix p (?G @ ?L)"
    using 1(7) set_mono_prefix [of p ?G] by blast
  then obtain p' where p': "p = ?G @ p'" "prefix p' ?L"
    unfolding prefix_append by blast
  with \<open>Start n \<notin> set ?G\<close> 1(7) have sn: "Start n \<in> set p'" by simp
  show ?case
  proof (cases "m < i + 3")
    case True
    with 1(3,4) have "Settle m \<in> set ?G" unfolding group_Settle using len by simp
    with p' show ?thesis by simp
  next
    case False
    then have m3: "i + batchSize \<le> m" by (simp add: batchSize_def)
    define a where "a = m - (i + 3)"
    define b where "b = n - (i + 3)"
    have "m - i = a + 3" "n - i = b + 3"
      using False n3 by (simp_all add: a_def b_def)
    with 1(6) have "(a + 3) div 3 < (b + 3) div 3" by simp
    then have "a div 3 < b div 3" by simp
    then have "(m - (i + batchSize)) div 3 < (n - (i + batchSize)) div 3"
      by (simp add: a_def b_def batchSize_def)
    from 1(1) [OF True refl refl p'(2) m3 1(4) 1(5) this sn] p'(1) show ?thesis by simp
  qed
qed

lemma upload_loop_together:
  "prefix p (fst (upload_loop sched env ftu i)) \<Longrightarrow> i \<le> m \<Longrightarrow> i \<le> n \<Longrightarrow>
   m < length ftu \<Longrightarrow> n < length ftu \<Longrightarrow> (m - i) div 3 = (n - i) div 3 \<Longrightarrow>
   Callback m \<in> set p \<Longrightarrow> Start n \<in> set p"
proof (induction sched env ftu i arbitrary: p rule: upload_loop.induct)
  case (1 sched env ftu i)
  from 1(3,5) have True: "i < length ftu" by simp
  note len = batch_length [OF True]
  let ?batch = "take batchSize (drop i ftu)"
  let ?G = "run_group (sched i) (protocols_of env i ?batch)"
  let ?L = "fst (upload_loop sched env ftu (i + batchSize))"
  from 1(2) True have pre: "prefix p (?G @ ?L)" by (simp add: upload_loop_step)
  show ?case
  proof (cases "m < i + 3")
    case True
    then have "(m - i) div 3 = 0" by simp
    with 1(7) have "n - i < 3" by (simp add: div_eq_0_iff)
    with 1(4,6) len have n: "i \<le> n" "n < i + length ?batch" by auto
    from pre consider "prefix p ?G" | p' where "p = ?G @ p'"
      by (auto simp: prefix_append)
    then show ?thesis
    proof cases
      case 1
      from group_all_start_first [OF 1 \<open>Callback m \<in> set p\<close> n] show ?thesis .
    next
      case 2
      from n have "Start n \<in> set ?G" unfolding group_Start by simp
      with 2 show ?thesis by simp
    qed
  next
    case False
    then have m3: "i + batchSize \<le> m" by (simp add: batchSize_def)
    from False have "(m - i) div 3 \<noteq> 0" by (simp add: div_eq_0_iff)
    with 1(7) have "\<not> n - i < 3" by (metis div_less)
    then have n3: "i + batchSize \<le> n" by (simp add: batchSize_def)
    have "Callback m \<notin> set ?G"
      using group_Callback [of m "sched i" env i ?batch] len False by auto
    then have "\<not> prefix p ?G"
      using 1(8) set_mono_prefix [of p ?G] by blast
    with pre obtain p' where p': "p = ?G @ p'" "prefix p' ?L"
      unfolding prefix_append by blast
    with \<open>Callback m \<notin> set ?G\<close> 1(8) have cb: "Callback m \<in> set p'" by simp
    define a where "a = m - (i + 3)"
    define b where "b = n - (i + 3)"
    have "m - i = a + 3" "n - i = b + 3"
      using m3 n3 by (simp_all add: a_def b_def batchSize_def)
    with 1(7) have "(a + 3) div 3 = (b + 3) div 3" by simp
    then have "a div 3 = b div 3" by simp
    then have "(m - (i + batchSize)) div 3 = (n - (i + batchSize)) div 3"
      by (simp add: a_def b_def batchSize_def)
    from 1(1) [OF True refl refl p'(2) m3 n3 1(5) 1(6) this cb] p'(1) show ?thesis by simp
  qed
qed

lemma upload_loop_started: "started (fst (upload_loop sched env ftu i)) = [i ..< length ftu]"
proof (induction sched env ftu i rule: upload_loop.induct)
  case (1 sched env ftu i)
  show ?case
  proof (cases "i < length ftu")
    case False
    then show ?thesis by (simp add: upload_loop_done)
  next
    case True
    note len = batch_length [OF True]
    let ?batch = "take batchSize (drop i ftu)"
    have "[i ..< length ftu] = [i ..< i + length ?batch] @ [i + length ?batch ..< length ftu]"
    proof -
      from len have "length ftu = (i + length ?batch) + (length ftu - (i + length ?batch))"
        by simp
      with upt_add_eq_append [of i "i + length ?batch" "length ftu - (i + length ?batch)"]
      show ?thesis by simp
    qed
    moreover have "i + batchSize < length ftu \<Longrightarrow> i + length ?batch = i + batchSize"
      by (simp add: batchSize_def)
    moreover have "\<not> i + batchSize < length ftu \<Longrightarrow>
        [i + length ?batch ..< length ftu] = [] \<and> [i + batchSize ..< length ftu] = []"
      using len by (simp add: batchSize_def)
    ultimately have "[i ..< length ftu] = [i ..< i + length ?batch] @ [i + batchSize ..< length ftu]"
      by (cases "i + batchSize < length ftu") simp_all
    with 1 [OF True refl refl] True show ?thesis
      by (simp add: upload_loop_step started_append group_started)
  qed
qed

lemma upload_loop_events:
  "j < length ftu \<Longrightarrow> i \<le> j \<Longrightarrow>
   set (fst (uploadSingleFile j (env j) (ftu ! j))) \<subseteq> set (fst (upload_loop sched env ftu i))"
proof (induction sched env ftu i rule: upload_loop.induct)
  case (1 sched env ftu i)
  from 1(2,3) have True: "i < length ftu" by simp
  note len = batch_length [OF True]
  let ?batch = "take batchSize (drop i ftu)"
  show ?case
  proof (cases "j < i + 3")
    case True
    with 1(2,3) have k: "j - i < length ?batch" "i + (j - i) = j" "?batch ! (j - i) = ftu ! j"
      by (auto simp: batchSize_def)
    have "set (fst (uploadSingleFile j (env j) (ftu ! j)))
        \<subseteq> set (run_group (sched i) (protocols_of env i ?batch))"
    proof
      fix e assume "e \<in> set (fst (uploadSingleFile j (env j) (ftu ! j)))"
      with k have "\<exists>k < length ?batch.
          e \<in> set (fst (uploadSingleFile (i + k) (env (i + k)) (?batch ! k)))"
        by (intro exI [of _ "j - i"]) simp
      then show "e \<in> set (run_group (sched i) (protocols_of env i ?batch))"
        unfolding group_member .
    qed
    with \<open>i < length ftu\<close> show ?thesis by (auto simp: upload_loop_step)
  next
    case False
    then have "i + batchSize \<le> j" by (simp add: batchSize_def)
    from 1(1) [OF True refl refl 1(2) this] True show ?thesis
      by (auto simp: upload_loop_step)
  qed
qed

lemma handleUploadAll_run:
  assumes "filesToUpload (files st) \<noteq> []"
  shows "trace (handleUploadAll sched env st) = fst (upload_loop sched env (filesToUpload (files st)) 0)"
    and "results (handleUploadAll sched env st) = snd (upload_loop sched env (filesToUpload (files st)) 0)"
    and "files (state_after (handleUploadAll sched env st))
           = replay (fst (upload_loop sched env (filesToUpload (files st)) 0)) (files st)"
proof -
  from assms have "files st \<noteq> []" by (auto simp: filesToUpload_def)
  with assms show
    "trace (handleUploadAll sched env st) = fst (upload_loop sched env (filesToUpload (files st)) 0)"
    "results (handleUploadAll sched env st) = snd (upload_loop sched env (filesToUpload (files st)) 0)"
    "files (state_after (handleUploadAll sched env st))
           = replay (fst (upload_loop sched env (filesToUpload (files st)) 0)) (files st)"
    by (simp_all add: handleUploadAll_def Let_def split: prod.splits)
qed

lemma handleUploadAll_idle:
  assumes "filesToUpload (files st) = []"
  shows "handleUploadAll sched env st
           = \<lparr>state_after = st, trace = [], results = [], uploadCompleteCalls = 0\<rparr>"
  using assms by (simp add: handleUploadAll_def)

text \<open>
  C3. Whatever the collaborators do and in whatever order the network delivers, after
  \<^verbatim>\<open>handleUploadAll\<close> every item that was in the batch (status \<^verbatim>\<open>ready\<close> or
  \<^verbatim>\<open>failed\<close> at the start) has the status \<^verbatim>\<open>completed\<close> or \<^verbatim>\<open>failed\<close>, and the
  tracked list has kept its length. The orchestrator returns one result for each file of
  the batch, in the order of the batch; a protocol whose \<^verbatim>\<open>try\<close> block throws at any
  step gives a result without success that carries the message, and the status update
  to \<^verbatim>\<open>failed\<close> with that message is among the events.
\<close>

theorem handleUploadAll_every_file_settles:
  "length (files (state_after (handleUploadAll sched env st))) = length (files st) \<and>
   (\<forall>k < length (files st).
      status (files st ! k) = Ready \<or> status (files st ! k) = Failed \<longrightarrow>
      status (files (state_after (handleUploadAll sched env st)) ! k) = Completed \<or>
      status (files (state_after (handleUploadAll sched env st)) ! k) = Failed) \<and>
   results (handleUploadAll sched env st)
     = map (\<lambda>j. snd (uploadSingleFile j (env j) (filesToUpload (files st) ! j)))
         [0 ..< length (filesToUpload (files st))] \<and>
   (\<forall>j < length (filesToUpload (files st)). \<forall>msg.
      snd (try_block j (env j) (filesToUpload (files st) ! j)) = Some msg \<longrightarrow>
        \<not> success_r (results (handleUploadAll sched env st) ! j) \<and>
        error_r (results (handleUploadAll sched env st) ! j) = Some msg \<and>
        Update (id_f (filesToUpload (files st) ! j)) Failed 0 (Some msg)
          \<in> set (trace (handleUploadAll sched env st)))"
proof (cases "filesToUpload (files st) = []")
  case True
  then have "\<forall>k < length (files st). \<not> (status (files st ! k) = Ready \<or> status (files st ! k) = Failed)"
    by (auto simp: filesToUpload_def filter_empty_conv)
  with True show ?thesis by (simp add: handleUploadAll_idle)
next
  case False
  let ?ftu = "filesToUpload (files st)"
  let ?T = "fst (upload_loop sched env ?ftu 0)"
  note run = handleUploadAll_run [OF False, of sched env]
  have len: "length (files (state_after (handleUploadAll sched env st))) = length (files st)"
    by (simp add: run replay_length)
  have settle: "status (files (state_after (handleUploadAll sched env st)) ! k) = Completed \<or>
      status (files (state_after (handleUploadAll sched env st)) ! k) = Failed"
    if k: "k < length (files st)"
      and r: "status (files st ! k) = Ready \<or> status (files st ! k) = Failed" for k
  proof -
    from k r have "files st ! k \<in> set ?ftu" by (simp add: filesToUpload_def)
    then have "id_f (files st ! k) \<in> id_f ` set (drop 0 ?ftu)" by simp
    with upload_loop_ends_terminal [of "id_f (files st ! k)" sched env ?ftu 0]
    obtain s where "last_status (id_f (files st ! k)) ?T = Some s" "s = Completed \<or> s = Failed"
      by (cases "last_status (id_f (files st ! k)) ?T") (auto simp: ends_terminal_def)
    with replay_nth [OF k, of ?T] show ?thesis by (simp add: run)
  qed
  have res: "results (handleUploadAll sched env st)
     = map (\<lambda>j. snd (uploadSingleFile j (env j) (?ftu ! j))) [0 ..< length ?ftu]"
    by (simp add: run upload_loop_results)
  have fail: "\<not> success_r (results (handleUploadAll sched env st) ! j) \<and>
        error_r (results (handleUploadAll sched env st) ! j) = Some msg \<and>
        Update (id_f (?ftu ! j)) Failed 0 (Some msg) \<in> set (trace (handleUploadAll sched env st))"
    if j: "j < length ?ftu" and t: "snd (try_block j (env j) (?ftu ! j)) = Some msg" for j msg
  proof -
    obtain evs where tb: "try_block j (env j) (?ftu ! j) = (evs, Some msg)"
      using t by (cases "try_block j (env j) (?ftu ! j)") simp
    then have "Update (id_f (?ftu ! j)) Failed 0 (Some msg)
        \<in> set (fst (uploadSingleFile j (env j) (?ftu ! j)))"
      by (simp add: uploadSingleFile_def)
    with upload_loop_events [OF j, of 0 env sched]
    have "Update (id_f (?ftu ! j)) Failed 0 (Some msg) \<in> set ?T" by blast
    moreover from j have "results (handleUploadAll sched env st) ! j
        = snd (uploadSingleFile j (env j) (?ftu ! j))"
      unfolding res by simp
    ultimately show ?thesis using tb by (simp add: run uploadSingleFile_def)
  qed
  from len settle res fail show ?thesis by blast
qed

text \<open>
  C4. Protocol number \<open>n\<close> is the one of the file at index \<open>n\<close> of the batch, and
  its group is \<open>n div 3\<close>. In every run: at no point are more than 3 protocols in
  flight; the protocols are started in the order of the batch, each once, and every
  event of every protocol takes place, whatever the outcome of the others; a protocol of
  a later group starts only after every protocol of an earlier group has settled; and
  no callback is delivered to a protocol before every protocol of its group has started.
\<close>

theorem handleUploadAll_groups_of_three:
  "(\<forall>p. prefix p (trace (handleUploadAll sched env st)) \<longrightarrow> length (in_flight p) \<le> 3) \<and>
   started (trace (handleUploadAll sched env st)) = [0 ..< length (filesToUpload (files st))] \<and>
   (\<forall>n < length (filesToUpload (files st)).
      set (fst (uploadSingleFile n (env n) (filesToUpload (files st) ! n)))
        \<subseteq> set (trace (handleUploadAll sched env st))) \<and>
   (\<forall>p m n. prefix p (trace (handleUploadAll sched env st)) \<and>
      m < length (filesToUpload (files st)) \<and> n < length (filesToUpload (files st)) \<and>
      m div 3 < n div 3 \<and> Start n \<in> set p \<longrightarrow> Settle m \<in> set p) \<and>
   (\<forall>p m n. prefix p (trace (handleUploadAll sched env st)) \<and>
      m < length (filesToUpload (files st)) \<and> n < length (filesToUpload (files st)) \<and>
      m div 3 = n div 3 \<and> Callback m \<in> set p \<longrightarrow> Start n \<in> set p)"
proof (cases "filesToUpload (files st) = []")
  case True
  then show ?thesis by (simp add: handleUploadAll_idle in_flight_def)
next
  case False
  let ?ftu = "filesToUpload (files st)"
  note run = handleUploadAll_run(1) [OF False, of sched env]
  have 1: "\<forall>p. prefix p (trace (handleUploadAll sched env st)) \<longrightarrow> length (in_flight p) \<le> 3"
    unfolding run using upload_loop_in_flight by blast
  have 2: "started (trace (handleUploadAll sched env st)) = [0 ..< length ?ftu]"
    unfolding run by (rule upload_loop_started)
  have 3: "\<forall>n < length ?ftu. set (fst (uploadSingleFile n (env n) (?ftu ! n)))
        \<subseteq> set (trace (handleUploadAll sched env st))"
    unfolding run using upload_loop_events [of _ ?ftu 0 env sched] by simp
  have 4: "\<forall>p m n. prefix p (trace (handleUploadAll sched env st)) \<and>
      m < length ?ftu \<and> n < length ?ftu \<and> m div 3 < n div 3 \<and> Start n \<in> set p
        \<longrightarrow> Settle m \<in> set p"
  proof (intro allI impI, elim conjE)
    fix p m n
    assume "prefix p (trace (handleUploadAll sched env st))" "m < length ?ftu" "n < length ?ftu"
      "m div 3 < n div 3" "Start n \<in> set p"
    with upload_loop_sequential [of p sched env ?ftu 0 m n] show "Settle m \<in> set p"
      by (simp add: run)
  qed
  have 5: "\<forall>p m n. prefix p (trace (handleUploadAll sched env st)) \<and>
      m < length ?ftu \<and> n < length ?ftu \<and> m div 3 = n div 3 \<and> Callback m \<in> set p
        \<longrightarrow> Start n \<in> set p"
  proof (intro allI impI, elim conjE)
    fix p m n
    assume "prefix p (trace (handleUploadAll sched env st))" "m < length ?ftu" "n < length ?ftu"
      "m div 3 = n div 3" "Callback m \<in> set p"
    with upload_loop_together [of p sched env ?ftu 0 m n] show "Start n \<in> set p"
      by (simp add: run)
  qed
  from 1 2 3 4 5 show ?thesis by (intro conjI)
qed

subsection \<open>A run of four files\<close>

lemmas run_eval =
  handleUploadAll_def four_ready_def filesToUpload_def fileObj_def sample_pdf_def
  upload_loop.simps batchSize_def uploadSingleFile_def try_block_def sample_envs_def
  good_env_def bad_env_def truthy_def run_group_def sample_sched_def js_def
  String_of_nat.simps Let_def enumerate_eq_zip

lemma four_ready_trace:
  "trace (handleUploadAll sample_sched sample_envs four_ready) =
   [Start 0, Update 1 GettingUrl 0 None, Start 1, Update 2 GettingUrl 0 None,
    Start 2, Update 3 GettingUrl 0 None, Callback 2,
    Update 3 Uploading 0 None, Callback 0, Update 1 Uploading 0 None,
    Callback 1, Update 2 Uploading 0 None, Callback 1,
    Update 2 Failed 0 (Some (js ''Upload failed with status: 403'')),
    Settle 1, Callback 0, Update 1 Uploading 50 None, Callback 0,
    Update 1 Processing 100 None, Callback 0, Update 1 Completed 100 None,
    Settle 0, Callback 2, Update 3 Uploading 50 None, Callback 2,
    Update 3 Processing 100 None, Callback 2, Update 3 Completed 100 None,
    Settle 2, Start 3, Update 4 GettingUrl 0 None, Callback 3,
    Update 4 Uploading 0 None, Callback 3, Update 4 Uploading 50 None,
    Callback 3, Update 4 Processing 100 None, Callback 3,
    Update 4 Completed 100 None, Settle 3]"
  by (simp add: run_eval)

lemma four_ready_batch:
  "filesToUpload (files four_ready) = files four_ready"
  "length (files four_ready) = 4"
  "status (files four_ready ! 1) = Ready"
  "id_f (files four_ready ! 1) = 2"
  "id_f (files four_ready ! Suc 0) = 2"
  by (simp_all add: four_ready_def filesToUpload_def fileObj_def)

lemma four_ready_second:
  "snd (try_block 1 (sample_envs 1) (files four_ready ! 1))
     = Some (js ''Upload failed with status: 403'')"
  by (simp add: four_ready_def fileObj_def sample_pdf_def try_block_def sample_envs_def
        good_env_def bad_env_def truthy_def js_def String_of_nat.simps Let_def)

theorem handleUploadAll_every_file_settles_witness:
  "status (files four_ready ! 1) = Ready \<and>
   snd (try_block 1 (sample_envs 1) (filesToUpload (files four_ready) ! 1))
     = Some (js ''Upload failed with status: 403'') \<and>
   status (files (state_after (handleUploadAll sample_sched sample_envs four_ready)) ! 1) = Failed \<and>
   length (results (handleUploadAll sample_sched sample_envs four_ready)) = 4 \<and>
   \<not> success_r (results (handleUploadAll sample_sched sample_envs four_ready) ! 1) \<and>
   error_r (results (handleUploadAll sample_sched sample_envs four_ready) ! 1)
     = Some (js ''Upload failed with status: 403'') \<and>
   Update 2 Failed 0 (Some (js ''Upload failed with status: 403''))
     \<in> set (trace (handleUploadAll sample_sched sample_envs four_ready))"
proof -
  note inst = handleUploadAll_every_file_settles [of sample_sched sample_envs four_ready]
  from inst have
    st: "\<forall>k < length (files four_ready).
      status (files four_ready ! k) = Ready \<or> status (files four_ready ! k) = Failed \<longrightarrow>
      status (files (state_after (handleUploadAll sample_sched sample_envs four_ready)) ! k) = Completed \<or>
      status (files (state_after (handleUploadAll sample_sched sample_envs four_ready)) ! k) = Failed"
    and rs: "results (handleUploadAll sample_sched sample_envs four_ready)
     = map (\<lambda>j. snd (uploadSingleFile j (sample_envs j) (filesToUpload (files four_ready) ! j)))
         [0 ..< length (filesToUpload (files four_ready))]"
    and fl: "\<forall>j < length (filesToUpload (files four_ready)). \<forall>msg.
      snd (try_block j (sample_envs j) (filesToUpload (files four_ready) ! j)) = Some msg \<longrightarrow>
        \<not> success_r (results (handleUploadAll sample_sched sample_envs four_ready) ! j) \<and>
        error_r (results (handleUploadAll sample_sched sample_envs four_ready) ! j) = Some msg \<and>
        Update (id_f (filesToUpload (files four_ready) ! j)) Failed 0 (Some msg)
          \<in> set (trace (handleUploadAll sample_sched sample_envs four_ready))"
    by blast+
  have one: "(1::nat) < length (filesToUpload (files four_ready))"
    by (simp add: four_ready_batch)
  from fl [rule_format, OF one, of "js ''Upload failed with status: 403''"] four_ready_second
  have f: "\<not> success_r (results (handleUploadAll sample_sched sample_envs four_ready) ! 1)"
    "error_r (results (handleUploadAll sample_sched sample_envs four_ready) ! 1)
       = Some (js ''Upload failed with status: 403'')"
    "Update 2 Failed 0 (Some (js ''Upload failed with status: 403''))
       \<in> set (trace (handleUploadAll sample_sched sample_envs four_ready))"
    by (simp_all add: four_ready_batch)
  have l: "length (results (handleUploadAll sample_sched sample_envs four_ready)) = 4"
    unfolding rs by (simp add: four_ready_batch)
  have s: "status (files (state_after (handleUploadAll sample_sched sample_envs four_ready)) ! 1) = Failed"
    by (simp add: run_eval updateFileStatus_def)
  from f l s four_ready_batch(3) four_ready_second show ?thesis
    by (simp add: four_ready_batch(1))
qed

theorem handleUploadAll_groups_of_three_witness:
  "prefix (take 30 (trace (handleUploadAll sample_sched sample_envs four_ready)))
     (trace (handleUploadAll sample_sched sample_envs four_ready)) \<and>
   length (filesToUpload (files four_ready)) = 4 \<and>
   (0::nat) div 3 < 3 div 3 \<and>
   Start 3 \<in> set (take 30 (trace (handleUploadAll sample_sched sample_envs four_ready))) \<and>
   Settle 0 \<in> set (take 30 (trace (handleUploadAll sample_sched sample_envs four_ready))) \<and>
   in_flight (take 30 (trace (handleUploadAll sample_sched sample_envs four_ready))) = [3] \<and>
   (1::nat) div 3 = 2 div 3 \<and>
   Callback 2 \<in> set (take 7 (trace (handleUploadAll sample_sched sample_envs four_ready))) \<and>
   Start 1 \<in> set (take 7 (trace (handleUploadAll sample_sched sample_envs four_ready))) \<and>
   in_flight (take 7 (trace (handleUploadAll sample_sched sample_envs four_ready))) = [0, 1, 2]"
proof -
  let ?T = "trace (handleUploadAll sample_sched sample_envs four_ready)"
  have n: "length (filesToUpload (files four_ready)) = 4"
    by (simp add: four_ready_batch)
  have p30: "prefix (take 30 ?T) ?T" and p7: "prefix (take 7 ?T) ?T"
    by (rule take_is_prefix)+
  have e1: "Start 3 \<in> set (take 30 ?T)"
    and e2: "in_flight (take 30 ?T) = [3]"
    and e3: "Callback 2 \<in> set (take 7 ?T)"
    and e4: "in_flight (take 7 ?T) = [0, 1, 2]"
    by (simp_all add: four_ready_trace in_flight_def)
  note inst = handleUploadAll_groups_of_three [of sample_sched sample_envs four_ready]
  from inst have
    seq: "\<forall>p m n. prefix p ?T \<and> m < length (filesToUpload (files four_ready)) \<and>
      n < length (filesToUpload (files four_ready)) \<and>
      m div 3 < n div 3 \<and> Start n \<in> set p \<longrightarrow> Settle m \<in> set p"
    and tog: "\<forall>p m n. prefix p ?T \<and> m < length (filesToUpload (files four_ready)) \<and>
      n < length (filesToUpload (files four_ready)) \<and>
      m div 3 = n div 3 \<and> Callback m \<in> set p \<longrightarrow> Start n \<in> set p"
    by blast+
  from seq [rule_format, of "take 30 ?T" 0 3] p30 e1
  have s0: "Settle 0 \<in> set (take 30 ?T)" by (simp add: n)
  from tog [rule_format, of "take 7 ?T" 2 1] p7 e3
  have s1: "Start 1 \<in> set (take 7 ?T)" by (simp add: n)
  from p30 n e1 s0 e2 e3 s1 e4 show ?thesis by simp
qed

section \<open>Headings, emphasis and lists in the markdown transform\<close>

lemmas markdown_eval =
  parseMarkdown_def headings_def replace_h3_def replace_h2_def replace_h1_def replace_bold_def
  replace_italic_def replace_code_block_def replace_inline_code_def replace_bullets_def
  wrap_list_def replace_numbered_def replace_links_def replace_newlines_def
  marked_line_def numbered_line_def span_def wrapped_def isLineTerminator_def isDigit_def
  js_def Let_def

lemma map_lines_line:
  "\<not> list_ex isLineTerminator a \<Longrightarrow> map_lines f line (a @ b) = map_lines f (line @ a) b"
  by (induction a arbitrary: line) simp_all

lemma map_lines_split:
  "isLineTerminator c \<Longrightarrow> f [] = [] \<Longrightarrow>
   map_lines f line (x @ c # y) = map_lines f line (x @ [c]) @ map_lines f [] y"
  by (induction x arbitrary: line) simp_all

lemma map_lines_last:
  assumes "isLineTerminator c" and "f [] = []"
  shows "\<exists>z. map_lines f line (x @ [c]) = z @ [c]"
proof (induction x arbitrary: line)
  case Nil
  from assms show ?case by simp
next
  case (Cons a x)
  show ?case
  proof (cases "isLineTerminator a")
    case True
    from Cons [of "[]"] obtain z where "map_lines f [] (x @ [c]) = z @ [c]" by blast
    with True show ?thesis by (intro exI [of _ "f line @ a # z"]) simp
  next
    case False
    with Cons [of "line @ [a]"] show ?thesis by simp
  qed
qed

lemma map_lines_ends:
  assumes "f [] = []" and "pre = [] \<or> isLineTerminator (last pre)"
  shows "map_lines f [] pre = [] \<or> isLineTerminator (last (map_lines f [] pre))"
proof (cases "pre = []")
  case True
  with assms(1) show ?thesis by simp
next
  case False
  with assms(2) obtain x c where pre: "pre = x @ [c]" and c: "isLineTerminator c"
    by (metis append_butlast_last_id)
  from map_lines_last [of c f "[]" x, OF c assms(1)] obtain z where "map_lines f [] pre = z @ [c]"
    unfolding pre by blast
  with c show ?thesis by simp
qed

lemma map_lines_starts:
  assumes "f [] = []" and "post = [] \<or> isLineTerminator (hd post)"
  shows "map_lines f [] post = [] \<or> isLineTerminator (hd (map_lines f [] post))"
  using assms by (cases post) auto

lemma map_lines_context:
  assumes f: "f [] = []" and l: "\<not> list_ex isLineTerminator l"
    and pre: "pre = [] \<or> isLineTerminator (last pre)"
    and post: "post = [] \<or> isLineTerminator (hd post)"
  shows "map_lines f [] (pre @ l @ post) = map_lines f [] pre @ f l @ map_lines f [] post"
proof -
  have tail: "map_lines f [] (l @ post) = f l @ map_lines f [] post"
  proof (cases post)
    case Nil
    with f l show ?thesis by (simp add: map_lines_line [where b = "[]", simplified])
  next
    case (Cons c y)
    with post have "isLineTerminator c" by simp
    with Cons f l show ?thesis by (simp add: map_lines_line)
  qed
  show ?thesis
  proof (cases "pre = []")
    case True
    with f tail show ?thesis by simp
  next
    case False
    with pre obtain x c where p: "pre = x @ [c]" and c: "isLineTerminator c"
      by (metis append_butlast_last_id)
    have "map_lines f [] (pre @ l @ post) = map_lines f [] (x @ c # (l @ post))"
      by (simp add: p)
    also have "\<dots> = map_lines f [] (x @ [c]) @ map_lines f [] (l @ post)"
      using map_lines_split [of c f "[]" x "l @ post", OF c f] .
    finally show ?thesis by (simp add: p tail)
  qed
qed

lemma headings_line:
  assumes pre: "pre = [] \<or> isLineTerminator (last pre)"
    and post: "post = [] \<or> isLineTerminator (hd post)"
    and l: "\<not> list_ex isLineTerminator l"
    and l3: \<open>marked_line (js ''### '') (js ''<h3 class="text-lg font-semibold mt-4 mb-2">'')
               (js ''</h3>'') l = l3\<close> "\<not> list_ex isLineTerminator l3"
    and l2: \<open>marked_line (js ''## '') (js ''<h2 class="text-xl font-semibold mt-4 mb-2">'')
               (js ''</h2>'') l3 = l2\<close> "\<not> list_ex isLineTerminator l2"
    and l1: \<open>marked_line (js ''# '') (js ''<h1 class="text-2xl font-bold mt-4 mb-2">'')
               (js ''</h1>'') l2 = l1\<close>
  shows "headings (pre @ l @ post) = headings pre @ l1 @ headings post"
proof -
  let ?f3 = \<open>marked_line (js ''### '') (js ''<h3 class="text-lg font-semibold mt-4 mb-2">'') (js ''</h3>'')\<close>
  let ?f2 = \<open>marked_line (js ''## '') (js ''<h2 class="text-xl font-semibold mt-4 mb-2">'') (js ''</h2>'')\<close>
  let ?f1 = \<open>marked_line (js ''# '') (js ''<h1 class="text-2xl font-bold mt-4 mb-2">'') (js ''</h1>'')\<close>
  have n3: "?f3 [] = []" and n2: "?f2 [] = []" and n1: "?f1 [] = []"
    by (simp_all add: marked_line_def js_def)
  have "replace_h3 (pre @ l @ post) = replace_h3 pre @ l3 @ replace_h3 post"
    using map_lines_context [of ?f3 l pre post, OF n3 l pre post] l3(1)
    by (simp add: replace_h3_def)
  moreover have "replace_h2 (replace_h3 pre @ l3 @ replace_h3 post)
      = replace_h2 (replace_h3 pre) @ l2 @ replace_h2 (replace_h3 post)"
    using map_lines_context [of ?f2 l3 "replace_h3 pre" "replace_h3 post", OF n2 l3(2)]
      map_lines_ends [of ?f3 pre, OF n3 pre] map_lines_starts [of ?f3 post, OF n3 post] l2(1)
    by (simp add: replace_h2_def replace_h3_def)
  moreover have "replace_h1 (replace_h2 (replace_h3 pre) @ l2 @ replace_h2 (replace_h3 post))
      = replace_h1 (replace_h2 (replace_h3 pre)) @ l1 @ replace_h1 (replace_h2 (replace_h3 post))"
    using map_lines_context [of ?f1 l2 "replace_h2 (replace_h3 pre)" "replace_h2 (replace_h3 post)",
        OF n1 l2(2)]
      map_lines_ends [of ?f2 "replace_h3 pre", OF n2]
      map_lines_ends [of ?f3 pre, OF n3 pre]
      map_lines_starts [of ?f2 "replace_h3 post", OF n2]
      map_lines_starts [of ?f3 post, OF n3 post] l1
    by (simp add: replace_h1_def replace_h2_def replace_h3_def)
  ultimately show ?thesis by (simp add: headings_def)
qed

lemma headings_hash_lines:
  assumes rest: "\<not> list_ex isLineTerminator rest"
    and pre: "pre = [] \<or> isLineTerminator (last pre)"
    and post: "post = [] \<or> isLineTerminator (hd post)"
  shows \<open>headings (pre @ js ''### '' @ rest @ post)
           = headings pre @ js ''<h3 class="text-lg font-semibold mt-4 mb-2">'' @ rest @ js ''</h3>''
             @ headings post\<close>
    and \<open>headings (pre @ js ''## '' @ rest @ post)
           = headings pre @ js ''<h2 class="text-xl font-semibold mt-4 mb-2">'' @ rest @ js ''</h2>''
             @ headings post\<close>
    and \<open>headings (pre @ js ''# '' @ rest @ post)
           = headings pre @ js ''<h1 class="text-2xl font-bold mt-4 mb-2">'' @ rest @ js ''</h1>''
             @ headings post\<close>
proof -
  show \<open>headings (pre @ js ''### '' @ rest @ post)
           = headings pre @ js ''<h3 class="text-lg font-semibold mt-4 mb-2">'' @ rest @ js ''</h3>''
             @ headings post\<close>
    using headings_line [OF pre post, of \<open>js ''### '' @ rest\<close>
        \<open>js ''<h3 class="text-lg font-semibold mt-4 mb-2">'' @ rest @ js ''</h3>''\<close>
        \<open>js ''<h3 class="text-lg font-semibold mt-4 mb-2">'' @ rest @ js ''</h3>''\<close>
        \<open>js ''<h3 class="text-lg font-semibold mt-4 mb-2">'' @ rest @ js ''</h3>''\<close>] rest
    by (simp add: marked_line_def js_def isLineTerminator_def)
  show \<open>headings (pre @ js ''## '' @ rest @ post)
           = headings pre @ js ''<h2 class="text-xl font-semibold mt-4 mb-2">'' @ rest @ js ''</h2>''
             @ headings post\<close>
    using headings_line [OF pre post, of \<open>js ''## '' @ rest\<close>
        \<open>js ''## '' @ rest\<close>
        \<open>js ''<h2 class="text-xl font-semibold mt-4 mb-2">'' @ rest @ js ''</h2>''\<close>
        \<open>js ''<h2 class="text-xl font-semibold mt-4 mb-2">'' @ rest @ js ''</h2>''\<close>] rest
    by (simp add: marked_line_def js_def isLineTerminator_def)
  show \<open>headings (pre @ js ''# '' @ rest @ post)
           = headings pre @ js ''<h1 class="text-2xl font-bold mt-4 mb-2">'' @ rest @ js ''</h1>''
             @ headings post\<close>
    using headings_line [OF pre post, of \<open>js ''# '' @ rest\<close>
        \<open>js ''# '' @ rest\<close> \<open>js ''# '' @ rest\<close>
        \<open>js ''<h1 class="text-2xl font-bold mt-4 mb-2">'' @ rest @ js ''</h1>''\<close>] rest
    by (simp add: marked_line_def js_def isLineTerminator_def)
qed

subsection \<open>The replacements after the headings\<close>

lemma replace_g_id:
  assumes "\<And>c cs. c \<in> set s \<Longrightarrow> m (c # cs) = None" and "m [] = None"
  shows "replace_g m s = s"
  using assms by (induction s) simp_all

lemma replace_bold_id: "0x002A \<notin> set s \<Longrightarrow> replace_bold s = s"
  unfolding replace_bold_def
  by (rule replace_g_id) (auto simp: span_def wrapped_def js_def)

lemma replace_italic_id: "0x002A \<notin> set s \<Longrightarrow> replace_italic s = s"
  unfolding replace_italic_def
  by (rule replace_g_id) (auto simp: span_def wrapped_def js_def)

lemma replace_code_block_id: "0x0060 \<notin> set s \<Longrightarrow> replace_code_block s = s"
  unfolding replace_code_block_def
  by (rule replace_g_id) (auto simp: span_def wrapped_def js_def)

lemma replace_inline_code_id: "0x0060 \<notin> set s \<Longrightarrow> replace_inline_code s = s"
  unfolding replace_inline_code_def
  by (rule replace_g_id) (auto simp: span_def wrapped_def js_def)

lemma replace_links_id: "0x005B \<notin> set s \<Longrightarrow> replace_links s = s"
  unfolding replace_links_def
  by (rule replace_g_id) (auto simp: span_def js_def)

lemma replace_newlines_id: "0x000A \<notin> set s \<Longrightarrow> replace_newlines s = s"
  unfolding replace_newlines_def
  by (rule replace_g_id) auto

lemma map_lines_one_line: "\<not> list_ex isLineTerminator s \<Longrightarrow> map_lines f [] s = f s"
  using map_lines_line [of s f "[]" "[]"] by simp

lemma wrap_list_skip:
  assumes "0x003C \<notin> set a"
  shows "replace_first (\<lambda>s. if prefix (0x003C # t) s then g s else None) (a @ b)
           = a @ replace_first (\<lambda>s. if prefix (0x003C # t) s then g s else None) b"
  using assms by (induction a) auto

lemma plain_set:
  assumes "list_all plain s"
  shows "0x002A \<notin> set s" "0x0060 \<notin> set s" "0x005B \<notin> set s" "0x003C \<notin> set s"
    "0x000A \<notin> set s" "\<not> list_ex isLineTerminator s"
  using assms by (auto simp: list_all_iff list_ex_iff plain_def isLineTerminator_def)

lemma wrap_list_element:
  assumes "x \<noteq> 0x006C" and "0x003C \<notin> set (x # a)" and "0x003C \<notin> set rest"
    and "y \<noteq> 0x006C" and "0x003C \<notin> set (y # b)"
  shows "wrap_list (0x003C # x # a @ rest @ 0x003C # y # b) = 0x003C # x # a @ rest @ 0x003C # y # b"
proof -
  have li: "js ''<li'' = 0x003C # [0x006C, 0x0069]" by (simp add: js_def)
  let ?m = "\<lambda>s. if prefix (0x003C # [0x006C, 0x0069]) s
              then (case greedy_until (js ''</li>'') (drop 3 s) of
                      Some (matched, rest) \<Rightarrow>
                        Some (js ''<ul class=\"my-2\">'' @ (0x003C # [0x006C, 0x0069]) @ matched
                              @ js ''</ul>'', rest)
                    | None \<Rightarrow> None)
              else None"
  have w: "wrap_list = replace_first ?m"
    unfolding wrap_list_def li ..
  have 1: "replace_first ?m (0x003C # x # a @ rest @ 0x003C # y # b)
      = 0x003C # replace_first ?m ((x # a @ rest) @ 0x003C # y # b)"
    using assms(1) by simp
  have 2: "replace_first ?m ((x # a @ rest) @ 0x003C # y # b)
      = (x # a @ rest) @ replace_first ?m (0x003C # y # b)"
    using assms(2,3) by (intro wrap_list_skip) simp
  have 3: "replace_first ?m (0x003C # y # b) = 0x003C # replace_first ?m ((y # b) @ [])"
    using assms(4) by simp
  have 4: "replace_first ?m ((y # b) @ []) = (y # b) @ replace_first ?m []"
    using assms(5) by (intro wrap_list_skip) simp
  have 5: "replace_first ?m [] = []" by simp
  show ?thesis unfolding w 1 2 3 4 5 by simp
qed

lemma element_untouched:
  assumes rest: "list_all plain rest"
    and o: "x \<noteq> 0x006C" "list_all plain (x # a)"
    and c: "y \<noteq> 0x006C" "list_all plain (y # b)"
  shows "replace_newlines (replace_links (replace_numbered (wrap_list (replace_bullets
           (replace_inline_code (replace_code_block (replace_italic (replace_bold
             (0x003C # x # a @ rest @ 0x003C # y # b)))))))))
         = 0x003C # x # a @ rest @ 0x003C # y # b"
proof -
  let ?h = "0x003C # x # a @ rest @ 0x003C # y # b"
  note r = plain_set [OF rest] and pa = plain_set [OF o(2)] and pb = plain_set [OF c(2)]
  have star: "0x002A \<notin> set ?h" using r(1) pa(1) pb(1) by simp
  have tick: "0x0060 \<notin> set ?h" using r(2) pa(2) pb(2) by simp
  have brack: "0x005B \<notin> set ?h" using r(3) pa(3) pb(3) by simp
  have nl: "0x000A \<notin> set ?h" using r(5) pa(5) pb(5) by simp
  have lt: "\<not> list_ex isLineTerminator ?h"
    using r(6) pa(6) pb(6) by (simp add: isLineTerminator_def)
  have bul: "replace_bullets ?h = ?h"
    unfolding replace_bullets_def map_lines_one_line [OF lt]
    by (simp add: marked_line_def js_def)
  have num: "replace_numbered ?h = ?h"
    unfolding replace_numbered_def map_lines_one_line [OF lt]
    by (simp add: numbered_line_def isDigit_def)
  have wrap: "wrap_list ?h = ?h"
    using wrap_list_element [OF o(1) pa(4) r(4) c(1) pb(4)] .
  show ?thesis
    by (simp only: replace_bold_id [OF star] replace_italic_id [OF star]
          replace_code_block_id [OF tick] replace_inline_code_id [OF tick] bul wrap num
          replace_links_id [OF brack] replace_newlines_id [OF nl])
qed

lemma parseMarkdown_stages:
  "text \<noteq> [] \<Longrightarrow>
   parseMarkdown text =
     replace_newlines (replace_links (replace_numbered (wrap_list (replace_bullets
       (replace_inline_code (replace_code_block (replace_italic (replace_bold
         (headings text)))))))))"
  by (simp add: parseMarkdown_def)

lemma headings_Nil: "headings [] = []"
  by (simp add: markdown_eval)

lemma plain_hash_lines:
  assumes "list_all plain rest"
  shows \<open>parseMarkdown (js ''### '' @ rest)
           = js ''<h3 class="text-lg font-semibold mt-4 mb-2">'' @ rest @ js ''</h3>''\<close>
    and \<open>parseMarkdown (js ''## '' @ rest)
           = js ''<h2 class="text-xl font-semibold mt-4 mb-2">'' @ rest @ js ''</h2>''\<close>
    and \<open>parseMarkdown (js ''# '' @ rest)
           = js ''<h1 class="text-2xl font-bold mt-4 mb-2">'' @ rest @ js ''</h1>''\<close>
proof -
  note lt = plain_set(6) [OF assms]
  have e: "([]::jsstring) = [] \<or> isLineTerminator (last [])" by simp
  have e': "([]::jsstring) = [] \<or> isLineTerminator (hd [])" by simp
  note h = headings_hash_lines [OF lt e e', simplified headings_Nil, simplified]
  have ne: \<open>js ''### '' @ rest \<noteq> []\<close> \<open>js ''## '' @ rest \<noteq> []\<close> \<open>js ''# '' @ rest \<noteq> []\<close>
    by (simp_all add: js_def)
  have u3: \<open>replace_newlines (replace_links (replace_numbered (wrap_list (replace_bullets
       (replace_inline_code (replace_code_block (replace_italic (replace_bold
         (js ''<h3 class="text-lg font-semibold mt-4 mb-2">'' @ rest @ js ''</h3>'')))))))))
       = js ''<h3 class="text-lg font-semibold mt-4 mb-2">'' @ rest @ js ''</h3>''\<close>
    using element_untouched [OF assms, of "0x0068"
        \<open>js ''3 class="text-lg font-semibold mt-4 mb-2">''\<close> "0x002F" \<open>js ''h3>''\<close>]
    by (simp add: js_def plain_def)
  have u2: \<open>replace_newlines (replace_links (replace_numbered (wrap_list (replace_bullets
       (replace_inline_code (replace_code_block (replace_italic (replace_bold
         (js ''<h2 class="text-xl font-semibold mt-4 mb-2">'' @ rest @ js ''</h2>'')))))))))
       = js ''<h2 class="text-xl font-semibold mt-4 mb-2">'' @ rest @ js ''</h2>''\<close>
    using element_untouched [OF assms, of "0x0068"
        \<open>js ''2 class="text-xl font-semibold mt-4 mb-2">''\<close> "0x002F" \<open>js ''h2>''\<close>]
    by (simp add: js_def plain_def)
  have u1: \<open>replace_newlines (replace_links (replace_numbered (wrap_list (replace_bullets
       (replace_inline_code (replace_code_block (replace_italic (replace_bold
         (js ''<h1 class="text-2xl font-bold mt-4 mb-2">'' @ rest @ js ''</h1>'')))))))))
       = js ''<h1 class="text-2xl font-bold mt-4 mb-2">'' @ rest @ js ''</h1>''\<close>
    using element_untouched [OF assms, of "0x0068"
        \<open>js ''1 class="text-2xl font-bold mt-4 mb-2">''\<close> "0x002F" \<open>js ''h1>''\<close>]
    by (simp add: js_def plain_def)
  show \<open>parseMarkdown (js ''### '' @ rest)
           = js ''<h3 class="text-lg font-semibold mt-4 mb-2">'' @ rest @ js ''</h3>''\<close>
    unfolding parseMarkdown_stages [OF ne(1)] using h(1) u3 by simp
  show \<open>parseMarkdown (js ''## '' @ rest)
           = js ''<h2 class="text-xl font-semibold mt-4 mb-2">'' @ rest @ js ''</h2>''\<close>
    unfolding parseMarkdown_stages [OF ne(2)] using h(2) u2 by simp
  show \<open>parseMarkdown (js ''# '' @ rest)
           = js ''<h1 class="text-2xl font-bold mt-4 mb-2">'' @ rest @ js ''</h1>''\<close>
    unfolding parseMarkdown_stages [OF ne(3)] using h(3) u1 by simp
qed

lemma context_hash_lines:
  assumes rest: "\<not> list_ex isLineTerminator rest"
    and pre: "pre = [] \<or> isLineTerminator (last pre)"
    and post: "post = [] \<or> isLineTerminator (hd post)"
  shows \<open>parseMarkdown (pre @ js ''### '' @ rest @ post)
     = replace_newlines (replace_links (replace_numbered (wrap_list (replace_bullets
         (replace_inline_code (replace_code_block (replace_italic (replace_bold
           (headings pre @ js ''<h3 class="text-lg font-semibold mt-4 mb-2">'' @ rest
            @ js ''</h3>'' @ headings post)))))))))\<close>
    and \<open>parseMarkdown (pre @ js ''## '' @ rest @ post)
     = replace_newlines (replace_links (replace_numbered (wrap_list (replace_bullets
         (replace_inline_code (replace_code_block (replace_italic (replace_bold
           (headings pre @ js ''<h2 class="text-xl font-semibold mt-4 mb-2">'' @ rest
            @ js ''</h2>'' @ headings post)))))))))\<close>
    and \<open>parseMarkdown (pre @ js ''# '' @ rest @ post)
     = replace_newlines (replace_links (replace_numbered (wrap_list (replace_bullets
         (replace_inline_code (replace_code_block (replace_italic (replace_bold
           (headings pre @ js ''<h1 class="text-2xl font-bold mt-4 mb-2">'' @ rest
            @ js ''</h1>'' @ headings post)))))))))\<close>
proof -
  have ne: \<open>pre @ js ''### '' @ rest @ post \<noteq> []\<close> \<open>pre @ js ''## '' @ rest @ post \<noteq> []\<close>
    \<open>pre @ js ''# '' @ rest @ post \<noteq> []\<close>
    by (simp_all add: js_def)
  note h = headings_hash_lines [OF rest pre post]
  show \<open>parseMarkdown (pre @ js ''### '' @ rest @ post)
     = replace_newlines (replace_links (replace_numbered (wrap_list (replace_bullets
         (replace_inline_code (replace_code_block (replace_italic (replace_bold
           (headings pre @ js ''<h3 class="text-lg font-semibold mt-4 mb-2">'' @ rest
            @ js ''</h3>'' @ headings post)))))))))\<close>
    unfolding parseMarkdown_stages [OF ne(1)] h(1) ..
  show \<open>parseMarkdown (pre @ js ''## '' @ rest @ post)
     = replace_newlines (replace_links (replace_numbered (wrap_list (replace_bullets
         (replace_inline_code (replace_code_block (replace_italic (replace_bold
           (headings pre @ js ''<h2 class="text-xl font-semibold mt-4 mb-2">'' @ rest
            @ js ''</h2>'' @ headings post)))))))))\<close>
    unfolding parseMarkdown_stages [OF ne(2)] h(2) ..
  show \<open>parseMarkdown (pre @ js ''# '' @ rest @ post)
     = replace_newlines (replace_links (replace_numbered (wrap_list (replace_bullets
         (replace_inline_code (replace_code_block (replace_italic (replace_bold
           (headings pre @ js ''<h1 class="text-2xl font-bold mt-4 mb-2">'' @ rest
            @ js ''</h1>'' @ headings post)))))))))\<close>
    unfolding parseMarkdown_stages [OF ne(3)] h(3) ..
qed

text \<open>
  C8. The transform runs the three heading replacements first, with the triple hash
  before the double and the single one. Wherever it stands in the text, a line that
  begins with \<open>###\<close> and a blank reaches the later replacements as an h3 element
  around the rest of the line, a line that begins with \<open>##\<close> and a blank as an h2
  element, a line that begins with \<open>#\<close> and a blank as an h1 element. When the rest of
  such a line is plain, the transform returns for the line that element and nothing
  else. On the input \<open>**bold** and *italic*\<close> it wraps \<open>bold\<close> in a strong element
  and \<open>italic\<close> in an em element.
\<close>

theorem parseMarkdown_headings_and_emphasis:
  \<open>(\<not> list_ex isLineTerminator rest \<and>
      (pre = [] \<or> isLineTerminator (last pre)) \<and>
      (post = [] \<or> isLineTerminator (hd post)) \<longrightarrow>
      parseMarkdown (pre @ js ''### '' @ rest @ post)
        = replace_newlines (replace_links (replace_numbered (wrap_list (replace_bullets
            (replace_inline_code (replace_code_block (replace_italic (replace_bold
              (headings pre @ js ''<h3 class="text-lg font-semibold mt-4 mb-2">'' @ rest
               @ js ''</h3>'' @ headings post))))))))) \<and>
      parseMarkdown (pre @ js ''## '' @ rest @ post)
        = replace_newlines (replace_links (replace_numbered (wrap_list (replace_bullets
            (replace_inline_code (replace_code_block (replace_italic (replace_bold
              (headings pre @ js ''<h2 class="text-xl font-semibold mt-4 mb-2">'' @ rest
               @ js ''</h2>'' @ headings post))))))))) \<and>
      parseMarkdown (pre @ js ''# '' @ rest @ post)
        = replace_newlines (replace_links (replace_numbered (wrap_list (replace_bullets
            (replace_inline_code (replace_code_block (replace_italic (replace_bold
              (headings pre @ js ''<h1 class="text-2xl font-bold mt-4 mb-2">'' @ rest
               @ js ''</h1>'' @ headings post)))))))))) \<and>
   (list_all plain heading \<longrightarrow>
      parseMarkdown (js ''### '' @ heading)
        = js ''<h3 class="text-lg font-semibold mt-4 mb-2">'' @ heading @ js ''</h3>'' \<and>
      parseMarkdown (js ''## '' @ heading)
        = js ''<h2 class="text-xl font-semibold mt-4 mb-2">'' @ heading @ js ''</h2>'' \<and>
      parseMarkdown (js ''# '' @ heading)
        = js ''<h1 class="text-2xl font-bold mt-4 mb-2">'' @ heading @ js ''</h1>'') \<and>
   parseMarkdown (js ''**bold** and *italic*'')
     = js ''<strong class="font-semibold">bold</strong> and <em class="italic">italic</em>''\<close>
proof -
  have \<open>parseMarkdown (js ''**bold** and *italic*'')
     = js ''<strong class="font-semibold">bold</strong> and <em class="italic">italic</em>''\<close>
    by (simp add: markdown_eval)
  with context_hash_lines [of rest pre post] plain_hash_lines [of heading]
  show ?thesis by blast
qed

theorem parseMarkdown_headings_and_emphasis_witness:
  \<open>\<not> list_ex isLineTerminator (js ''B'') \<and>
   isLineTerminator (last (js ''A\<newline>'')) \<and>
   isLineTerminator (hd (js ''\<newline># D'')) \<and>
   parseMarkdown (js ''A\<newline>'' @ js ''### '' @ js ''B'' @ js ''\<newline># D'')
     = js ''A<br/><h3 class="text-lg font-semibold mt-4 mb-2">B</h3><br/><h1 class="text-2xl font-bold mt-4 mb-2">D</h1>'' \<and>
   list_all plain (js ''Part 1 - done'') \<and>
   parseMarkdown (js ''### '' @ js ''Part 1 - done'')
     = js ''<h3 class="text-lg font-semibold mt-4 mb-2">Part 1 - done</h3>''\<close>
proof -
  have a: \<open>\<not> list_ex isLineTerminator (js ''B'')\<close>
    and b: \<open>isLineTerminator (last (js ''A\<newline>''))\<close>
    and c: \<open>isLineTerminator (hd (js ''\<newline># D''))\<close>
    by (simp_all add: js_def isLineTerminator_def)
  have p: \<open>list_all plain (js ''Part 1 - done'')\<close>
    by (simp add: js_def plain_def)
  note inst = parseMarkdown_headings_and_emphasis [of \<open>js ''B''\<close> \<open>js ''A\<newline>''\<close>
      \<open>js ''\<newline># D''\<close> \<open>js ''Part 1 - done''\<close>]
  from inst a b c
  have \<open>parseMarkdown (js ''A\<newline>'' @ js ''### '' @ js ''B'' @ js ''\<newline># D'')
        = replace_newlines (replace_links (replace_numbered (wrap_list (replace_bullets
            (replace_inline_code (replace_code_block (replace_italic (replace_bold
              (headings (js ''A\<newline>'') @ js ''<h3 class="text-lg font-semibold mt-4 mb-2">''
               @ js ''B'' @ js ''</h3>'' @ headings (js ''\<newline># D''))))))))))\<close>
    by blast
  also have \<open>\<dots> = js ''A<br/><h3 class="text-lg font-semibold mt-4 mb-2">B</h3><br/><h1 class="text-2xl font-bold mt-4 mb-2">D</h1>''\<close>
    by (simp add: markdown_eval)
  finally have 1: \<open>parseMarkdown (js ''A\<newline>'' @ js ''### '' @ js ''B'' @ js ''\<newline># D'')
     = js ''A<br/><h3 class="text-lg font-semibold mt-4 mb-2">B</h3><br/><h1 class="text-2xl font-bold mt-4 mb-2">D</h1>''\<close> .
  from inst p have \<open>parseMarkdown (js ''### '' @ js ''Part 1 - done'')
      = js ''<h3 class="text-lg font-semibold mt-4 mb-2">'' @ js ''Part 1 - done'' @ js ''</h3>''\<close>
    by blast
  then have 2: \<open>parseMarkdown (js ''### '' @ js ''Part 1 - done'')
     = js ''<h3 class="text-lg font-semibold mt-4 mb-2">Part 1 - done</h3>''\<close>
    by (simp add: js_def)
  from a b c p 1 2 show ?thesis by blast
qed

text \<open>
  C9. The list container is put by one replacement without the flag \<^verbatim>\<open>g\<close> and with
  the flag \<^verbatim>\<open>s\<close>: it reaches from the first list item of the text to the last. On
  two runs of one item each with the line \<open>x\<close> between them the transform yields one
  container, with \<open>x\<close> inside.
\<close>

theorem parseMarkdown_two_runs:
  \<open>parseMarkdown (js ''- a\<newline>x\<newline>- b'')
     = js ''<ul class="my-2"><li class="ml-4">'' @ [0x2022] @ js '' a</li><br/>x<br/><li class="ml-4">''
       @ [0x2022] @ js '' b</li></ul>''\<close>
  by (simp add: markdown_eval)

text \<open>
  What holds of lists: one run alone is wrapped in one container, and numbered lines
  become list items without a container.
\<close>

lemma parseMarkdown_one_run:
  \<open>parseMarkdown (js ''- a\<newline>- b'')
     = js ''<ul class="my-2"><li class="ml-4">'' @ [0x2022] @ js '' a</li><br/><li class="ml-4">''
       @ [0x2022] @ js '' b</li></ul>''\<close>
  by (simp add: markdown_eval)

lemma parseMarkdown_numbered:
  \<open>parseMarkdown (js ''1. a\<newline>2. b'')
     = js ''<li class="ml-4 list-decimal">a</li><br/><li class="ml-4 list-decimal">b</li>''\<close>
  by (simp add: markdown_eval)

end
